theory Spec2Isabelle
  imports Complex_Main "HOL-Library.Sublist"
begin

section \<open>Bonjour discovery (pymobiledevice3/bonjour.py)\<close>

text \<open>
  The module opens one multicast session per interface address, lets every session's
  listener resolve the first service notification it receives, sleeps for a fixed time
  and then collects the resolved answers, closing every session on the way.

  Python's \<open>bytes\<close> and \<open>str\<close> are both modelled as \<open>string\<close>. The cooperative
  scheduling of asyncio is modelled by explicit event lists: what the event loop lets
  happen while \<open>browse\<close> is suspended is an argument of the model, and every theorem
  quantifies over it.
\<close>

type_synonym bytes = string

subsection \<open>Constants\<close>




text \<open>\<open>sys.platform\<close> is a parameter of everything that reads it.\<close>

definition DEFAULT_BONJOUR_TIMEOUT :: "string \<Rightarrow> real" where
  "DEFAULT_BONJOUR_TIMEOUT platform = (if platform \<noteq> ''win32'' then 1 else 2)"

subsection \<open>Data model\<close>

datatype error = CancelledError | IndexError | BadTypeInNameException | RequestError string

record BonjourAnswer =
  properties :: "bytes \<rightharpoonup> bytes"
  ips :: "string list"
  port :: "int option"

datatype ServiceStateChange = Added | Removed | Updated

text \<open>
  A queued notification is the tuple \<open>(zeroconf, service_type, name, state_change)\<close>; the
  first component is the session's own client and is left out.
\<close>

type_synonym notification = "string \<times> string \<times> ServiceStateChange"

text \<open>
  What \<open>AsyncServiceInfo\<close> holds once \<open>async_request\<close> has returned: the packed
  addresses by IP version, the TXT properties and the port.
\<close>

record service_info =
  v4_addresses :: "bytes list"
  v6_addresses :: "bytes list"
  info_properties :: "bytes \<rightharpoonup> bytes"
  info_port :: "int option"

datatype address_family = AF_INET | AF_INET6

text \<open>\<open>socket.inet_ntop\<close> is a library function.\<close>

type_synonym ntop = "address_family \<Rightarrow> bytes \<Rightarrow> string"

text \<open>
  The library calls whose result the module depends on: \<open>inet_ntop\<close>, and the constructor
  \<open>AsyncServiceInfo(service_type, name)\<close> of line 40, which raises on an instance name that
  does not fit the service type; \<open>service_info_error\<close> is the exception it raises, if any.
\<close>

record library =
  inet_ntop :: ntop
  service_info_error :: "string \<Rightarrow> string \<Rightarrow> error option"

text \<open>
  The state of the coroutine \<open>query_addresses\<close> wrapped in \<open>querying_task\<close>: suspended at
  \<open>queue.get()\<close>, suspended at \<open>async_request\<close> for the notification it dequeued,
  returned, ended by an exception, or cancelled.
\<close>

datatype task =
    AwaitingGet
  | AwaitingRequest notification
  | Finished
  | Failed error
  | Cancelled

record BonjourListener =
  l_properties :: "bytes \<rightharpoonup> bytes"
  ip :: string
  l_port :: "int option"
  addresses :: "string list"
  queue :: "notification list"
  querying_task :: task

record AsyncZeroconf =
  interfaces :: "string list"
  zc_closed :: bool

record AsyncServiceBrowser =
  types :: "string list"
  browser_cancelled :: bool

record BonjourQuery =
  zc :: AsyncZeroconf
  service_browser :: AsyncServiceBrowser
  listener :: BonjourListener

subsection \<open>BonjourListener\<close>

definition BonjourListener_init :: "string \<Rightarrow> BonjourListener" where
  "BonjourListener_init a =
     \<lparr>l_properties = Map.empty, ip = a, l_port = None, addresses = [],
      queue = [], querying_task = AwaitingGet\<rparr>"

definition async_on_service_state_change ::
  "BonjourListener \<Rightarrow> notification \<Rightarrow> BonjourListener" where
  "async_on_service_state_change l n = l\<lparr>queue := queue l @ [n]\<rparr>"

text \<open>Python's \<open>s.split(sep)\<close> for a separator of one character.\<close>

fun str_split :: "char \<Rightarrow> string \<Rightarrow> string list" where
  "str_split sep [] = [[]]"
| "str_split sep (c # cs) =
     (if c = sep then [] # str_split sep cs
      else (case str_split sep cs of
              [] \<Rightarrow> [[c]]
            | w # ws \<Rightarrow> (c # w) # ws))"

text \<open>
  Lines 42 to 48: the address list of a resolved record. \<open>self.ip.split('%')[1]\<close> is
  evaluated once per IPv6 address, so an out-of-range index could only raise when there
  is one.
\<close>

definition resolved_addresses :: "ntop \<Rightarrow> string \<Rightarrow> service_info \<Rightarrow> error + string list" where
  "resolved_addresses nt a info =
     (let ipv4 = map (nt AF_INET) (v4_addresses info) in
      if CHR ''%'' \<in> set a then
        (let parts = str_split CHR ''%'' a in
         if v6_addresses info \<noteq> [] \<and> length parts < 2 then Inl IndexError
         else Inr (ipv4 @ map (\<lambda>address. nt AF_INET6 address @ ''%'' @ parts ! 1)
                              (v6_addresses info)))
      else Inr ipv4)"

text \<open>
  What the task does and what its listener becomes, for the three things that can happen
  to a listener while \<open>browse\<close> is suspended.
\<close>

datatype task_effect = QueueGet notification | ResolveRequest notification

datatype listener_event =
    Notify notification
  | Wake
  | Completed "error + service_info"

text \<open>
  \<open>Notify\<close>: the browser calls \<open>async_on_service_state_change\<close>.
  \<open>Wake\<close>: the event loop resumes the task at \<open>queue.get()\<close>; with an item queued the task
  takes the oldest one and builds the \<open>AsyncServiceInfo\<close>; if the constructor raises, the
  task ends by that exception, otherwise it suspends in \<open>async_request\<close>.
  \<open>Completed\<close>: \<open>async_request\<close> returns (the record it loaded) or raises; the task runs
  lines 42 to 50 without suspending and ends.
  An event the task is not waiting for changes nothing.
\<close>

fun query_addresses :: "library \<Rightarrow> listener_event \<Rightarrow> BonjourListener \<Rightarrow> task_effect list \<times> BonjourListener" where
  "query_addresses lib Wake l =
     (case (querying_task l, queue l) of
        (AwaitingGet, (service_type, name, state_change) # ns) \<Rightarrow>
          (case service_info_error lib service_type name of
             Some e \<Rightarrow>
               ([QueueGet (service_type, name, state_change)],
                l\<lparr>queue := ns, querying_task := Failed e\<rparr>)
           | None \<Rightarrow>
               ([QueueGet (service_type, name, state_change),
                 ResolveRequest (service_type, name, state_change)],
                l\<lparr>queue := ns,
                  querying_task := AwaitingRequest (service_type, name, state_change)\<rparr>))
      | _ \<Rightarrow> ([], l))"
| "query_addresses lib (Completed r) l =
     (case querying_task l of
        AwaitingRequest n \<Rightarrow>
          (case r of
             Inl e \<Rightarrow> ([], l\<lparr>querying_task := Failed e\<rparr>)
           | Inr info \<Rightarrow>
               (case resolved_addresses (inet_ntop lib) (ip l) info of
                  Inl e \<Rightarrow> ([], l\<lparr>querying_task := Failed e\<rparr>)
                | Inr addrs \<Rightarrow>
                    ([], l\<lparr>addresses := addrs, l_properties := info_properties info,
                           l_port := info_port info, querying_task := Finished\<rparr>)))
      | _ \<Rightarrow> ([], l))"
| "query_addresses lib (Notify n) l = ([], l)"

fun listener_step :: "library \<Rightarrow> listener_event \<Rightarrow> BonjourListener \<Rightarrow> task_effect list \<times> BonjourListener" where
  "listener_step lib (Notify n) l = ([], async_on_service_state_change l n)"
| "listener_step lib ev l = query_addresses lib ev l"

fun listener_run :: "library \<Rightarrow> listener_event list \<Rightarrow> BonjourListener \<Rightarrow> task_effect list \<times> BonjourListener" where
  "listener_run lib [] l = ([], l)"
| "listener_run lib (ev # evs) l =
     (let (fx, l') = listener_step lib ev l;
          (fx', l'') = listener_run lib evs l'
      in (fx @ fx', l''))"

text \<open>
  \<open>close\<close>: \<open>cancel()\<close> ends a task that has not ended yet; awaiting the task then raises
  \<open>CancelledError\<close>, which is caught. Awaiting a task that returned gives its result, and
  awaiting one that ended by an exception raises that exception again. The first
  component is the exception leaving \<open>close\<close>, if any.
\<close>

definition close :: "BonjourListener \<Rightarrow> error option \<times> BonjourListener" where
  "close l =
     (case querying_task l of
        AwaitingGet \<Rightarrow> (None, l\<lparr>querying_task := Cancelled\<rparr>)
      | AwaitingRequest n \<Rightarrow> (None, l\<lparr>querying_task := Cancelled\<rparr>)
      | Finished \<Rightarrow> (None, l)
      | Cancelled \<Rightarrow> (None, l)
      | Failed e \<Rightarrow> (if e = CancelledError then (None, l) else (Some e, l)))"

subsection \<open>Interface enumeration\<close>

text \<open>
  \<open>ifaddr\<close>: the \<open>ip\<close> of an IPv4 address is a string, that of an IPv6 address the tuple
  \<open>(address, flowinfo, scope_id)\<close>.
\<close>

datatype IP = IPv4 string | IPv6 string nat nat

record Adapter =
  nice_name :: string
  adapter_ips :: "IP list"

fun is_IPv4 :: "IP \<Rightarrow> bool" where
  "is_IPv4 (IPv4 a) = True"
| "is_IPv4 (IPv6 a f s) = False"

fun is_IPv6 :: "IP \<Rightarrow> bool" where
  "is_IPv6 (IPv4 a) = False"
| "is_IPv6 (IPv6 a f s) = True"

text \<open>The address string: \<open>ip.ip\<close> of an IPv4 address, \<open>ip.ip[0]\<close> of an IPv6 address.\<close>

fun ip_address :: "IP \<Rightarrow> string" where
  "ip_address (IPv4 a) = a"
| "ip_address (IPv6 a f s) = a"

text \<open>Decimal rendering of a non-negative integer, as an f-string does it.\<close>

fun str_nat :: "nat \<Rightarrow> string" where
  "str_nat n =
     (if n < 10 then [char_of (48 + n)]
      else str_nat (n div 10) @ [char_of (48 + n mod 10)])"

declare str_nat.simps [simp del]

text \<open>
  Line 71, the comprehension of the \<open>win32\<close> branch; \<open>adapter.ips[0]\<close> raises on an
  adapter without addresses.
\<close>

fun get_ipv6_ips_win32 :: "Adapter list \<Rightarrow> error + string list" where
  "get_ipv6_ips_win32 [] = Inr []"
| "get_ipv6_ips_win32 (adapter # rest) =
     (case adapter_ips adapter of
        [] \<Rightarrow> Inl IndexError
      | first # others \<Rightarrow>
          (case get_ipv6_ips_win32 rest of
             Inl e \<Rightarrow> Inl e
           | Inr r \<Rightarrow>
               (case first of
                  IPv6 a f s \<Rightarrow> Inr ((a @ ''%'' @ str_nat s) # r)
                | IPv4 a \<Rightarrow> Inr r)))"

text \<open>Lines 74 to 80, the inner loop of the other branch.\<close>

fun adapter_ipv6_ips :: "string \<Rightarrow> IP list \<Rightarrow> string list" where
  "adapter_ipv6_ips nice [] = []"
| "adapter_ipv6_ips nice (i # rest) =
     (if \<not> is_IPv6 i then adapter_ipv6_ips nice rest
      else if ip_address i \<in> {''::1'', ''fe80::1''} then adapter_ipv6_ips nice rest
      else (ip_address i @ ''%'' @ nice) # adapter_ipv6_ips nice rest)"

definition get_ipv6_ips :: "string \<Rightarrow> Adapter list \<Rightarrow> error + string list" where
  "get_ipv6_ips platform adapters =
     (if platform = ''win32'' then get_ipv6_ips_win32 adapters
      else Inr (concat (map (\<lambda>adapter. adapter_ipv6_ips (nice_name adapter) (adapter_ips adapter))
                            adapters)))"

text \<open>Lines 113 to 120, the address list of \<open>browse_ipv4\<close>.\<close>

fun adapter_ipv4_ips :: "IP list \<Rightarrow> string list" where
  "adapter_ipv4_ips [] = []"
| "adapter_ipv4_ips (i # rest) =
     (if i = IPv4 ''127.0.0.1'' then adapter_ipv4_ips rest
      else if \<not> is_IPv4 i then adapter_ipv4_ips rest
      else ip_address i # adapter_ipv4_ips rest)"

definition get_ipv4_ips :: "Adapter list \<Rightarrow> string list" where
  "get_ipv4_ips adapters = concat (map (\<lambda>adapter. adapter_ipv4_ips (adapter_ips adapter)) adapters)"

subsection \<open>browse\<close>

definition query_bonjour :: "string \<Rightarrow> string \<Rightarrow> BonjourQuery" where
  "query_bonjour service_name a =
     \<lparr>zc = \<lparr>interfaces = [a], zc_closed = False\<rparr>,
      service_browser = \<lparr>types = [service_name], browser_cancelled = False\<rparr>,
      listener = BonjourListener_init a\<rparr>"

text \<open>
  The observable steps of a run, in the order they happen. The number is the position of
  the session in \<open>bonjour_queries\<close>.
\<close>

datatype effect =
    Sleep real
  | TaskEffect nat task_effect
  | TaskCancel nat
  | BrowserCancel nat
  | ClientClose nat

datatype event = Ev nat listener_event

record browse_state =
  queries :: "BonjourQuery list"
  answers :: "BonjourAnswer list"
  log :: "effect list"
  raised :: "error option"

definition run_event :: "library \<Rightarrow> event \<Rightarrow> browse_state \<Rightarrow> browse_state" where
  "run_event lib ev st =
     (case ev of Ev k e \<Rightarrow>
        if k < length (queries st) then
          (let q = queries st ! k;
               (fx, l') = listener_step lib e (listener q)
           in st\<lparr>queries := (queries st)[k := q\<lparr>listener := l'\<rparr>],
                 log := log st @ map (TaskEffect k) fx\<rparr>)
        else st)"

fun run_events :: "library \<Rightarrow> event list \<Rightarrow> browse_state \<Rightarrow> browse_state" where
  "run_events lib [] st = st"
| "run_events lib (ev # evs) st = run_events lib evs (run_event lib ev st)"

definition answer_of :: "BonjourListener \<Rightarrow> BonjourAnswer" where
  "answer_of l = \<lparr>properties = l_properties l, ips = addresses l, port = l_port l\<rparr>"

text \<open>Lines 97 to 101.\<close>

definition collect_answer :: "BonjourListener \<Rightarrow> BonjourAnswer list \<Rightarrow> BonjourAnswer list" where
  "collect_answer l as =
     (if addresses l \<noteq> [] then
        (let answer = answer_of l in
         if answer \<notin> set as then as @ [answer] else as)
      else as)"

text \<open>
  One pass of the loop body, lines 97 to 104, for the session at position \<open>k\<close>. The
  three awaits of lines 102 to 104 let the event loop run other tasks; \<open>evs\<close> is what
  happens to the listeners meanwhile. An exception leaving \<open>close\<close> leaves \<open>browse\<close>.
  \<open>async_cancel\<close> and \<open>async_close\<close> are library calls and are taken to return.
\<close>

definition browse_iteration :: "library \<Rightarrow> nat \<Rightarrow> event list \<Rightarrow> browse_state \<Rightarrow> browse_state" where
  "browse_iteration lib k evs st =
     (let q = queries st ! k;
          st1 = st\<lparr>answers := collect_answer (listener q) (answers st)\<rparr>;
          (r, l') = close (listener q);
          st2 = st1\<lparr>queries := (queries st1)[k := q\<lparr>listener := l'\<rparr>],
                    log := log st1 @ [TaskCancel k]\<rparr>
      in case r of
           Some e \<Rightarrow> st2\<lparr>raised := Some e\<rparr>
         | None \<Rightarrow>
             (let st3 = run_events lib evs st2;
                  q3 = queries st3 ! k;
                  st4 = st3\<lparr>queries := (queries st3)
                              [k := q3\<lparr>service_browser := (service_browser q3)\<lparr>browser_cancelled := True\<rparr>\<rparr>],
                            log := log st3 @ [BrowserCancel k]\<rparr>;
                  q4 = queries st4 ! k
              in st4\<lparr>queries := (queries st4)[k := q4\<lparr>zc := (zc q4)\<lparr>zc_closed := True\<rparr>\<rparr>],
                     log := log st4 @ [ClientClose k]\<rparr>))"

fun browse_loop :: "library \<Rightarrow> (nat \<Rightarrow> event list) \<Rightarrow> nat list \<Rightarrow> browse_state \<Rightarrow> browse_state" where
  "browse_loop lib sched [] st = st"
| "browse_loop lib sched (k # ks) st =
     (let st' = browse_iteration lib k (sched k) st
      in if raised st' \<noteq> None then st' else browse_loop lib sched ks st')"

text \<open>
  \<open>browse\<close>: \<open>during_sleep\<close> is what happens to the listeners while \<open>asyncio.sleep\<close> is
  pending, \<open>sched k\<close> what happens during the awaits of pass \<open>k\<close> of the loop.
\<close>

definition browse_start :: "library \<Rightarrow> string \<Rightarrow> string list \<Rightarrow> real \<Rightarrow> event list \<Rightarrow> browse_state" where
  "browse_start lib service_name addrs timeout during_sleep =
     run_events lib during_sleep
       \<lparr>queries = map (query_bonjour service_name) addrs, answers = [],
        log = [Sleep timeout], raised = None\<rparr>"

definition browse_run ::
  "library \<Rightarrow> string \<Rightarrow> string list \<Rightarrow> real \<Rightarrow> event list \<Rightarrow> (nat \<Rightarrow> event list) \<Rightarrow> browse_state" where
  "browse_run lib service_name addrs timeout during_sleep sched =
     browse_loop lib sched [0..<length addrs]
       (browse_start lib service_name addrs timeout during_sleep)"

definition result :: "browse_state \<Rightarrow> error + BonjourAnswer list" where
  "result st = (case raised st of Some e \<Rightarrow> Inl e | None \<Rightarrow> Inr (answers st))"

definition browse ::
  "library \<Rightarrow> string \<Rightarrow> string list \<Rightarrow> real \<Rightarrow> event list \<Rightarrow> (nat \<Rightarrow> event list)
   \<Rightarrow> error + BonjourAnswer list" where
  "browse lib service_name addrs timeout during_sleep sched =
     result (browse_run lib service_name addrs timeout during_sleep sched)"

subsection \<open>Entry points\<close>







subsection \<open>A library for the examples\<close>

text \<open>
  In the examples the packed addresses are given as text already, so \<open>inet_ntop\<close> returns
  its argument, and the constructor accepts an instance name that ends with the service
  type and raises \<open>BadTypeInNameException\<close> on any other.
\<close>

definition example_library :: library where
  "example_library =
     \<lparr>inet_ntop = (\<lambda>family packed. packed),
      service_info_error =
        (\<lambda>service_type name.
           if suffix service_type name then None else Some BadTypeInNameException)\<rparr>"

subsection \<open>Observing a run\<close>

text \<open>The events of a list that concern the session at position \<open>k\<close>.\<close>

fun events_of :: "nat \<Rightarrow> event list \<Rightarrow> listener_event list" where
  "events_of k [] = []"
| "events_of k (Ev j e # evs) = (if j = k then e # events_of k evs else events_of k evs)"

text \<open>A task that has ended, however it ended.\<close>

fun terminal :: "task \<Rightarrow> bool" where
  "terminal AwaitingGet = False"
| "terminal (AwaitingRequest n) = False"
| "terminal Finished = True"
| "terminal (Failed e) = True"
| "terminal Cancelled = True"

text \<open>The steps of lines 102 to 104 among the steps of a run.\<close>

fun is_teardown :: "effect \<Rightarrow> bool" where
  "is_teardown (TaskCancel k) = True"
| "is_teardown (BrowserCancel k) = True"
| "is_teardown (ClientClose k) = True"
| "is_teardown (Sleep t) = False"
| "is_teardown (TaskEffect k e) = False"

definition teardown_of :: "nat \<Rightarrow> effect list" where
  "teardown_of k = [TaskCancel k, BrowserCancel k, ClientClose k]"

text \<open>The notifications a list of events puts into a listener's queue, oldest first.\<close>

fun enqueued :: "listener_event list \<Rightarrow> notification list" where
  "enqueued [] = []"
| "enqueued (Notify n # evs) = n # enqueued evs"
| "enqueued (Wake # evs) = enqueued evs"
| "enqueued (Completed r # evs) = enqueued evs"

text \<open>The state of a loop pass when \<open>close\<close> has returned and the awaits of the pass are over.\<close>

definition after_close :: "library \<Rightarrow> nat \<Rightarrow> event list \<Rightarrow> browse_state \<Rightarrow> browse_state" where
  "after_close lib k evs st =
     run_events lib evs
       (st\<lparr>answers := collect_answer (listener (queries st ! k)) (answers st),
           queries := (queries st)[k := (queries st ! k)\<lparr>listener := snd (close (listener (queries st ! k)))\<rparr>],
           log := log st @ [TaskCancel k]\<rparr>)"

text \<open>A task that ended by an exception.\<close>

fun failed :: "task \<Rightarrow> bool" where
  "failed (Failed e) = True"
| "failed AwaitingGet = False"
| "failed (AwaitingRequest n) = False"
| "failed Finished = False"
| "failed Cancelled = False"


text \<open>
  The listener of the session at position \<open>k\<close> when \<open>asyncio.sleep\<close> returns: it has seen
  its own events only, in their order.
\<close>

definition session_listener :: "library \<Rightarrow> event list \<Rightarrow> string list \<Rightarrow> nat \<Rightarrow> BonjourListener" where
  "session_listener lib during_sleep addrs k =
     snd (listener_run lib (events_of k during_sleep) (BonjourListener_init (addrs ! k)))"

text \<open>
  What has happened when pass \<open>k\<close> of the loop reads its session: the events during the sleep
  and those during the awaits of the passes before it.
\<close>

definition events_before :: "event list \<Rightarrow> (nat \<Rightarrow> event list) \<Rightarrow> nat \<Rightarrow> event list" where
  "events_before during_sleep sched k = during_sleep @ concat (map sched [0..<k])"

text \<open>The listener of session \<open>k\<close> as pass \<open>k\<close> reads it.\<close>

definition pass_listener ::
  "library \<Rightarrow> event list \<Rightarrow> (nat \<Rightarrow> event list) \<Rightarrow> string list \<Rightarrow> nat \<Rightarrow> BonjourListener" where
  "pass_listener lib during_sleep sched addrs k =
     session_listener lib (events_before during_sleep sched k) addrs k"

text \<open>
  The answers the passes construct, in the order of the passes: one for every session
  whose \<open>addresses\<close> is not empty when its pass reads it.
\<close>

definition candidates ::
  "library \<Rightarrow> event list \<Rightarrow> (nat \<Rightarrow> event list) \<Rightarrow> string list \<Rightarrow> BonjourAnswer list" where
  "candidates lib during_sleep sched addrs =
     map answer_of
       (filter (\<lambda>l. addresses l \<noteq> [])
          (map (pass_listener lib during_sleep sched addrs) [0..<length addrs]))"

text \<open>The constructor of line 40 takes the notification: it raises nothing.\<close>

definition accepted :: "library \<Rightarrow> notification \<Rightarrow> bool" where
  "accepted lib n \<longleftrightarrow> (case n of (service_type, name, state_change) \<Rightarrow>
       service_info_error lib service_type name = None)"

text \<open>
  What a task has done, by the state it is in. Still at \<open>queue.get()\<close>: nothing, and every
  notification is in the queue. Past it: it took the oldest notification and all the
  others are in the queue; it asked once for the record of that notification unless the
  constructor rejected it; the resolved fields are those of the record of a completed
  request in a task that returned, and untouched in every other state.
\<close>

definition task_history ::
  "library \<Rightarrow> listener_event list \<Rightarrow> task_effect list \<Rightarrow> BonjourListener \<Rightarrow> bool" where
  "task_history lib evs fx l \<longleftrightarrow>
     (case querying_task l of
        AwaitingGet \<Rightarrow>
          fx = [] \<and> queue l = enqueued evs
          \<and> addresses l = [] \<and> l_properties l = Map.empty \<and> l_port l = None
      | AwaitingRequest n \<Rightarrow>
          fx = [QueueGet n, ResolveRequest n] \<and> enqueued evs = n # queue l \<and> accepted lib n
          \<and> addresses l = [] \<and> l_properties l = Map.empty \<and> l_port l = None
      | Finished \<Rightarrow>
          (\<exists>n info. fx = [QueueGet n, ResolveRequest n] \<and> enqueued evs = n # queue l
             \<and> accepted lib n \<and> Completed (Inr info) \<in> set evs
             \<and> resolved_addresses (inet_ntop lib) (ip l) info = Inr (addresses l)
             \<and> l_properties l = info_properties info \<and> l_port l = info_port info)
      | Failed e \<Rightarrow>
          (\<exists>n. enqueued evs = n # queue l
             \<and> ((fx = [QueueGet n] \<and> (case n of (service_type, name, state_change) \<Rightarrow>
                      service_info_error lib service_type name = Some e))
                \<or> (fx = [QueueGet n, ResolveRequest n] \<and> accepted lib n
                    \<and> Completed (Inl e) \<in> set evs)))
          \<and> addresses l = [] \<and> l_properties l = Map.empty \<and> l_port l = None
      | Cancelled \<Rightarrow> False)"



text \<open>
  No task does anything once its cancellation has been logged: scanning the steps of a
  run from the start, \<open>C\<close> holds the sessions whose task has been cancelled so far.
\<close>

fun quiet_after_cancel :: "nat set \<Rightarrow> effect list \<Rightarrow> bool" where
  "quiet_after_cancel C [] = True"
| "quiet_after_cancel C (TaskCancel k # fx) = quiet_after_cancel (insert k C) fx"
| "quiet_after_cancel C (TaskEffect k e # fx) = (k \<notin> C \<and> quiet_after_cancel C fx)"
| "quiet_after_cancel C (Sleep t # fx) = quiet_after_cancel C fx"
| "quiet_after_cancel C (BrowserCancel k # fx) = quiet_after_cancel C fx"
| "quiet_after_cancel C (ClientClose k # fx) = quiet_after_cancel C fx"

definition cancelled_in :: "effect list \<Rightarrow> nat set" where
  "cancelled_in fx = {k. TaskCancel k \<in> set fx}"

text \<open>The invariant of a run behind that: a task with a logged cancellation has ended.\<close>

definition cancel_inv :: "browse_state \<Rightarrow> bool" where
  "cancel_inv st \<longleftrightarrow>
     quiet_after_cancel {} (log st) \<and>
     (\<forall>k\<in>cancelled_in (log st).
        k < length (queries st) \<longrightarrow> terminal (querying_task (listener (queries st ! k))))"

section \<open>Properties\<close>

subsection \<open>Splitting the interface address\<close>

lemma str_split_ne: "str_split c s \<noteq> []"
  by (induction s) (auto split: list.splits)

lemma str_split_none: "c \<notin> set s \<Longrightarrow> str_split c s = [s]"
  by (induction s) (auto split: list.splits)

lemma str_split_first: "c \<notin> set h \<Longrightarrow> str_split c (h @ c # r) = h # str_split c r"
  by (induction h) (auto split: list.splits)

lemma str_split_length: "c \<in> set s \<Longrightarrow> 2 \<le> length (str_split c s)"
  by (induction s) (auto split: list.splits simp: str_split_ne)

text \<open>The guard of line 45 keeps the index of line 46 in range: no \<open>IndexError\<close>.\<close>

lemma resolved_addresses_ok:
  "resolved_addresses nt a info =
     Inr (map (nt AF_INET) (v4_addresses info) @
          (if CHR ''%'' \<in> set a
           then map (\<lambda>address. nt AF_INET6 address @ ''%'' @ str_split CHR ''%'' a ! 1)
                    (v6_addresses info)
           else []))"
  using str_split_length [of "CHR ''%''" a]
  by (auto simp: resolved_addresses_def Let_def)

subsection \<open>Zone suffix of the resolved addresses\<close>

text \<open>
  C4. When the resolve request of a listener returns, the task ends normally and
  \<open>addresses\<close> is the IPv4 literals as \<open>inet_ntop\<close> renders them, followed, only when the
  bound address contains \<open>%\<close>, by every IPv6 literal with \<open>%\<close> and the second
  \<open>%\<close>-separated part of the bound address appended. For a bound address
  \<open>host%zone\<close> that part is \<open>zone\<close>, so each IPv6 literal carries the suffix
  \<open>%zone\<close> of the interface address.
\<close>

theorem query_addresses_zone_suffix:
  assumes "querying_task l = AwaitingRequest n"
  shows "query_addresses lib (Completed (Inr info)) l =
           ([], l\<lparr>addresses := map (inet_ntop lib AF_INET) (v4_addresses info) @
                    (if CHR ''%'' \<in> set (ip l)
                     then map (\<lambda>address. inet_ntop lib AF_INET6 address @ ''%'' @ str_split CHR ''%'' (ip l) ! 1)
                              (v6_addresses info)
                     else []),
                  l_properties := info_properties info, l_port := info_port info,
                  querying_task := Finished\<rparr>)
         \<and> (\<forall>host zone. ip l = host @ ''%'' @ zone \<and> CHR ''%'' \<notin> set host \<and> CHR ''%'' \<notin> set zone
              \<longrightarrow> str_split CHR ''%'' (ip l) ! 1 = zone)"
  using assms by (auto simp add: resolved_addresses_ok str_split_first str_split_none)

theorem query_addresses_zone_suffix_witness:
  "querying_task ((BonjourListener_init ''fe80::5%en0'')
       \<lparr>querying_task := AwaitingRequest (''_remoted._tcp.local.'', ''dev._remoted._tcp.local.'', Added)\<rparr>)
     = AwaitingRequest (''_remoted._tcp.local.'', ''dev._remoted._tcp.local.'', Added)
   \<and> ''fe80::5%en0'' = ''fe80::5'' @ ''%'' @ ''en0''
   \<and> CHR ''%'' \<notin> set ''fe80::5'' \<and> CHR ''%'' \<notin> set ''en0''
   \<and> str_split CHR ''%'' ''fe80::5%en0'' ! 1 = ''en0''
   \<and> query_addresses example_library
        (Completed (Inr \<lparr>v4_addresses = [''10.0.0.7''], v6_addresses = [''fe80::7'', ''fd00::7''],
                         info_properties = Map.empty, info_port = Some 58783\<rparr>))
        ((BonjourListener_init ''fe80::5%en0'')
           \<lparr>querying_task := AwaitingRequest (''_remoted._tcp.local.'', ''dev._remoted._tcp.local.'', Added)\<rparr>) =
      ([], \<lparr>l_properties = Map.empty, ip = ''fe80::5%en0'', l_port = Some 58783,
           addresses = [''10.0.0.7'', ''fe80::7%en0'', ''fd00::7%en0''],
           queue = [], querying_task = Finished\<rparr>)"
  using query_addresses_zone_suffix
    [of "(BonjourListener_init ''fe80::5%en0'')
           \<lparr>querying_task := AwaitingRequest (''_remoted._tcp.local.'', ''dev._remoted._tcp.local.'', Added)\<rparr>"
        "(''_remoted._tcp.local.'', ''dev._remoted._tcp.local.'', Added)" example_library
        "\<lparr>v4_addresses = [''10.0.0.7''], v6_addresses = [''fe80::7'', ''fd00::7''],
          info_properties = Map.empty, info_port = Some 58783\<rparr>"]
  by (simp add: BonjourListener_init_def example_library_def)

text \<open>
  C10. A listener bound to an address without \<open>%\<close> keeps the IPv4 literals only: the
  IPv6 addresses of the resolved record are dropped.
\<close>

theorem query_addresses_unscoped_ipv4_only:
  assumes "CHR ''%'' \<notin> set (ip l)" and "querying_task l = AwaitingRequest n"
  shows "query_addresses lib (Completed (Inr info)) l =
           ([], l\<lparr>addresses := map (inet_ntop lib AF_INET) (v4_addresses info),
                  l_properties := info_properties info, l_port := info_port info,
                  querying_task := Finished\<rparr>)"
  using assms by (simp add: resolved_addresses_ok)

theorem query_addresses_unscoped_ipv4_only_witness:
  "CHR ''%'' \<notin> set ''10.0.0.2'' \<and>
   query_addresses example_library
     (Completed (Inr \<lparr>v4_addresses = [''10.0.0.7''], v6_addresses = [''fe80::7''],
                      info_properties = Map.empty, info_port = Some 58783\<rparr>))
     ((BonjourListener_init ''10.0.0.2'')
        \<lparr>querying_task := AwaitingRequest (''_apple-mobdev2._tcp.local.'', ''dev._apple-mobdev2._tcp.local.'', Added)\<rparr>) =
   ([], \<lparr>l_properties = Map.empty, ip = ''10.0.0.2'', l_port = Some 58783,
        addresses = [''10.0.0.7''], queue = [], querying_task = Finished\<rparr>)"
  using query_addresses_unscoped_ipv4_only
    [of "(BonjourListener_init ''10.0.0.2'')
           \<lparr>querying_task := AwaitingRequest (''_apple-mobdev2._tcp.local.'', ''dev._apple-mobdev2._tcp.local.'', Added)\<rparr>"
        "(''_apple-mobdev2._tcp.local.'', ''dev._apple-mobdev2._tcp.local.'', Added)" example_library
        "\<lparr>v4_addresses = [''10.0.0.7''], v6_addresses = [''fe80::7''],
          info_properties = Map.empty, info_port = Some 58783\<rparr>"]
  by (simp add: BonjourListener_init_def example_library_def)

subsection \<open>What the events leave alone\<close>

lemma answers_run_event [simp]: "answers (run_event lib ev st) = answers st"
  by (cases ev) (simp add: run_event_def Let_def split: prod.splits)

lemma answers_run_events [simp]: "answers (run_events lib evs st) = answers st"
  by (induction evs arbitrary: st) simp_all

lemma raised_run_event [simp]: "raised (run_event lib ev st) = raised st"
  by (cases ev) (simp add: run_event_def Let_def split: prod.splits)

lemma raised_run_events [simp]: "raised (run_events lib evs st) = raised st"
  by (induction evs arbitrary: st) simp_all

lemma length_run_event [simp]: "length (queries (run_event lib ev st)) = length (queries st)"
  by (cases ev) (simp add: run_event_def Let_def split: prod.splits)

lemma length_run_events [simp]: "length (queries (run_events lib evs st)) = length (queries st)"
  by (induction evs arbitrary: st) simp_all

lemma answers_browse_iteration:
  "answers (browse_iteration lib k evs st) = collect_answer (listener (queries st ! k)) (answers st)"
  by (simp add: browse_iteration_def Let_def split: prod.splits option.splits)

lemma length_browse_iteration [simp]:
  "length (queries (browse_iteration lib k evs st)) = length (queries st)"
  by (simp add: browse_iteration_def Let_def split: prod.splits option.splits)

subsection \<open>Deduplication\<close>

lemma collect_answer_cases:
  "collect_answer l as =
     (if addresses l \<noteq> [] \<and> answer_of l \<notin> set as then as @ [answer_of l] else as)"
  by (simp add: collect_answer_def Let_def)

lemma distinct_collect_answer: "distinct as \<Longrightarrow> distinct (collect_answer l as)"
  by (simp add: collect_answer_cases)

lemma distinct_browse_loop:
  "distinct (answers st) \<Longrightarrow> distinct (answers (browse_loop lib sched ks st))"
  by (induction ks arbitrary: st)
     (simp_all add: Let_def answers_browse_iteration distinct_collect_answer)

subsection \<open>Interface filtering\<close>

lemma get_ipv4_ips_no_loopback: "''127.0.0.1'' \<notin> set (get_ipv4_ips adapters)"
proof -
  have "''127.0.0.1'' \<notin> set (adapter_ipv4_ips xs)" for xs
  proof (induction xs)
    case Nil
    then show ?case by simp
  next
    case (Cons i xs)
    then show ?case by (cases i) auto
  qed
  then show ?thesis by (auto simp: get_ipv4_ips_def)
qed

lemma adapter_ipv6_ips_filtered:
  "s \<in> set (adapter_ipv6_ips nice xs) \<Longrightarrow>
     \<exists>a f sc. IPv6 a f sc \<in> set xs \<and> s = a @ ''%'' @ nice \<and> a \<noteq> ''::1'' \<and> a \<noteq> ''fe80::1''"
proof (induction xs)
  case Nil
  then show ?case by simp
next
  case (Cons i xs)
  then show ?case by (cases i) (auto split: if_splits)
qed

lemma get_ipv6_ips_filtered:
  assumes "platform \<noteq> ''win32''" and "get_ipv6_ips platform adapters = Inr r" and "s \<in> set r"
  shows "\<exists>a nice. s = a @ ''%'' @ nice \<and> a \<noteq> ''::1'' \<and> a \<noteq> ''fe80::1''"
  using assms by (fastforce simp: get_ipv6_ips_def dest!: adapter_ipv6_ips_filtered)

text \<open>
  C3. The IPv4 list never holds \<open>127.0.0.1\<close> (\<open>get_ipv4_ips_no_loopback\<close>), and off
  \<open>win32\<close> no entry of the IPv6 list is \<open>::1\<close> or \<open>fe80::1\<close> with a zone
  (\<open>get_ipv6_ips_filtered\<close>). The \<open>win32\<close> branch of \<open>get_ipv6_ips\<close> has no such test:
  for an adapter whose first address is the loopback address \<open>::1\<close> with scope 0 it
  returns \<open>::1%0\<close>.
\<close>

theorem get_ipv6_ips_win32_keeps_loopback:
  "get_ipv6_ips ''win32''
     [\<lparr>nice_name = ''Loopback Pseudo-Interface 1'',
       adapter_ips = [IPv6 ''::1'' 0 0, IPv4 ''127.0.0.1'']\<rparr>] = Inr [''::1%0'']"
  by code_simp

subsection \<open>A session sees its own events only\<close>

lemma listener_run_append:
  "listener_run lib (xs @ ys) l =
     (let (fx, l') = listener_run lib xs l; (fx', l'') = listener_run lib ys l' in (fx @ fx', l''))"
  by (induction xs arbitrary: l) (simp_all add: Let_def case_prod_beta)

lemma zc_run_event:
  "k < length (queries st) \<Longrightarrow> zc (queries (run_event lib ev st) ! k) = zc (queries st ! k)"
  by (cases ev) (auto simp add: run_event_def Let_def nth_list_update split: prod.splits)

lemma sb_run_event:
  "k < length (queries st) \<Longrightarrow>
   service_browser (queries (run_event lib ev st) ! k) = service_browser (queries st ! k)"
  by (cases ev) (auto simp add: run_event_def Let_def nth_list_update split: prod.splits)

lemma zc_run_events:
  "k < length (queries st) \<Longrightarrow> zc (queries (run_events lib evs st) ! k) = zc (queries st ! k)"
  by (induction evs arbitrary: st) (simp_all add: zc_run_event)

lemma sb_run_events:
  "k < length (queries st) \<Longrightarrow>
   service_browser (queries (run_events lib evs st) ! k) = service_browser (queries st ! k)"
  by (induction evs arbitrary: st) (simp_all add: sb_run_event)

lemma listener_run_event:
  "k < length (queries st) \<Longrightarrow>
   listener (queries (run_event lib (Ev j e) st) ! k) =
     (if j = k then snd (listener_step lib e (listener (queries st ! k)))
      else listener (queries st ! k))"
  by (auto simp add: run_event_def Let_def nth_list_update split: prod.splits)

lemma run_events_listener:
  "k < length (queries st) \<Longrightarrow>
   listener (queries (run_events lib evs st) ! k) =
     snd (listener_run lib (events_of k evs) (listener (queries st ! k)))"
proof (induction evs arbitrary: st)
  case Nil
  then show ?case by simp
next
  case (Cons ev evs)
  obtain j e where ev: "ev = Ev j e" by (cases ev)
  show ?case
    using Cons.prems Cons.IH [of "run_event lib ev st"]
    by (simp add: ev listener_run_event Let_def case_prod_beta)
qed

subsection \<open>A task that has ended stays ended\<close>

lemma terminal_step:
  assumes "terminal (querying_task l)"
  shows "fst (listener_step lib ev l) = []"
    and "querying_task (snd (listener_step lib ev l)) = querying_task l"
    and "answer_of (snd (listener_step lib ev l)) = answer_of l"
  using assms
  by (cases ev; cases "querying_task l";
      simp add: async_on_service_state_change_def answer_of_def)+

lemma terminal_run:
  assumes "terminal (querying_task l)"
  shows "fst (listener_run lib evs l) = []
       \<and> querying_task (snd (listener_run lib evs l)) = querying_task l
       \<and> answer_of (snd (listener_run lib evs l)) = answer_of l"
  using assms
proof (induction evs arbitrary: l)
  case Nil
  then show ?case by simp
next
  case (Cons ev evs)
  have t: "terminal (querying_task (snd (listener_step lib ev l)))"
    using Cons.prems by (simp add: terminal_step)
  show ?case
    using Cons.IH [OF t] terminal_step [OF Cons.prems, of lib ev]
    by (simp add: Let_def case_prod_beta)
qed

subsection \<open>One pass of the loop\<close>

lemma close_pending:
  "\<not> terminal (querying_task l) \<Longrightarrow> close l = (None, l\<lparr>querying_task := Cancelled\<rparr>)"
  by (cases "querying_task l") (simp_all add: close_def)

lemma raised_browse_iteration:
  "raised (browse_iteration lib k evs st) =
     (case fst (close (listener (queries st ! k))) of Some e \<Rightarrow> Some e | None \<Rightarrow> raised st)"
  by (simp add: browse_iteration_def Let_def split: prod.splits option.splits)


lemma browse_iteration_raise:
  assumes "fst (close (listener (queries st ! k))) = Some e"
  shows "browse_iteration lib k evs st =
           st\<lparr>answers := collect_answer (listener (queries st ! k)) (answers st),
              queries := (queries st)[k := (queries st ! k)\<lparr>listener := snd (close (listener (queries st ! k)))\<rparr>],
              log := log st @ [TaskCancel k],
              raised := Some e\<rparr>"
  using assms by (simp add: browse_iteration_def Let_def case_prod_beta)

lemma browse_iteration_ok:
  assumes "fst (close (listener (queries st ! k))) = None"
  shows "browse_iteration lib k evs st =
           (let st3 = after_close lib k evs st; q3 = queries st3 ! k in
            st3\<lparr>queries := (queries st3)
                   [k := q3\<lparr>service_browser := (service_browser q3)\<lparr>browser_cancelled := True\<rparr>,
                           zc := (zc q3)\<lparr>zc_closed := True\<rparr>\<rparr>],
                log := log st3 @ [BrowserCancel k, ClientClose k]\<rparr>)"
proof (cases "k < length (queries st)")
  case True
  then show ?thesis using assms
    by (simp add: browse_iteration_def after_close_def Let_def case_prod_beta)
next
  case False
  then show ?thesis using assms
    by (simp add: browse_iteration_def after_close_def Let_def case_prod_beta list_update_beyond)
qed


lemma close_cases:
  obtains e where "fst (close l) = Some e" | "fst (close l) = None"
  by (cases "fst (close l)") auto

lemma length_after_close [simp]: "length (queries (after_close lib k evs st)) = length (queries st)"
  by (simp add: after_close_def)

lemma raised_after_close [simp]: "raised (after_close lib k evs st) = raised st"
  by (simp add: after_close_def)

lemma teardown_run_event:
  "filter is_teardown (log (run_event lib ev st)) = filter is_teardown (log st)"
  by (cases ev) (simp add: run_event_def Let_def filter_map comp_def split: prod.splits)

lemma teardown_run_events:
  "filter is_teardown (log (run_events lib evs st)) = filter is_teardown (log st)"
  by (induction evs arbitrary: st) (simp_all add: teardown_run_event)

lemma teardown_after_close:
  "filter is_teardown (log (after_close lib k evs st)) = filter is_teardown (log st) @ [TaskCancel k]"
  by (simp add: after_close_def teardown_run_events)

lemma teardown_browse_iteration:
  "filter is_teardown (log (browse_iteration lib k evs st)) =
     filter is_teardown (log st) @
       (case fst (close (listener (queries st ! k))) of
          None \<Rightarrow> teardown_of k | Some e \<Rightarrow> [TaskCancel k])"
proof (cases "listener (queries st ! k)" rule: close_cases)
  case (1 e)
  then show ?thesis by (simp add: browse_iteration_raise)
next
  case 2
  then show ?thesis
    by (simp add: browse_iteration_ok Let_def teardown_after_close teardown_of_def)
qed

lemma after_close_other:
  assumes "j \<noteq> k" and "j < length (queries st)"
  shows "zc (queries (after_close lib k evs st) ! j) = zc (queries st ! j)"
    and "service_browser (queries (after_close lib k evs st) ! j) = service_browser (queries st ! j)"
    and "listener (queries (after_close lib k evs st) ! j) =
           snd (listener_run lib (events_of j evs) (listener (queries st ! j)))"
  using assms
  by (simp_all add: after_close_def zc_run_events sb_run_events run_events_listener)


lemma browse_iteration_other:
  assumes "j \<noteq> k" and "j < length (queries st)"
  shows "zc (queries (browse_iteration lib k evs st) ! j) = zc (queries st ! j)"
    and "service_browser (queries (browse_iteration lib k evs st) ! j) = service_browser (queries st ! j)"
    and "listener (queries (browse_iteration lib k evs st) ! j) =
           (if fst (close (listener (queries st ! k))) = None
            then snd (listener_run lib (events_of j evs) (listener (queries st ! j)))
            else listener (queries st ! j))"
proof -
  show "zc (queries (browse_iteration lib k evs st) ! j) = zc (queries st ! j)"
    using assms
    by (cases "listener (queries st ! k)" rule: close_cases)
       (simp_all add: browse_iteration_raise browse_iteration_ok Let_def after_close_other)
  show "service_browser (queries (browse_iteration lib k evs st) ! j) = service_browser (queries st ! j)"
    using assms
    by (cases "listener (queries st ! k)" rule: close_cases)
       (simp_all add: browse_iteration_raise browse_iteration_ok Let_def after_close_other)
  show "listener (queries (browse_iteration lib k evs st) ! j) =
           (if fst (close (listener (queries st ! k))) = None
            then snd (listener_run lib (events_of j evs) (listener (queries st ! j)))
            else listener (queries st ! j))"
    using assms
    by (cases "listener (queries st ! k)" rule: close_cases)
       (simp_all add: browse_iteration_raise browse_iteration_ok Let_def after_close_other)
qed

lemma close_not_cancelled: "fst (close l) \<noteq> Some CancelledError"
  by (cases "querying_task l") (simp_all add: close_def)

lemma close_terminal: "terminal (querying_task (snd (close l)))"
  by (cases "querying_task l") (simp_all add: close_def)



lemma raised_browse_loop:
  "raised st \<noteq> Some CancelledError \<Longrightarrow>
   raised (browse_loop lib sched ks st) \<noteq> Some CancelledError"
proof (induction ks arbitrary: st)
  case Nil
  then show ?case by simp
next
  case (Cons k ks)
  have "raised (browse_iteration lib k (sched k) st) \<noteq> Some CancelledError"
    using Cons.prems close_not_cancelled [of "listener (queries st ! k)"]
    by (auto simp add: raised_browse_iteration split: option.splits)
  then show ?case using Cons.IH by (simp add: Let_def)
qed

lemma teardown_browse_loop:
  assumes "raised st = None"
  shows "\<exists>n\<le>length ks.
           filter is_teardown (log (browse_loop lib sched ks st)) =
             filter is_teardown (log st) @ concat (map teardown_of (take n ks)) @
               (case raised (browse_loop lib sched ks st) of
                  None \<Rightarrow> [] | Some e \<Rightarrow> [TaskCancel (ks ! n)])
         \<and> (case raised (browse_loop lib sched ks st) of
               None \<Rightarrow> n = length ks | Some e \<Rightarrow> n < length ks)"
  using assms
proof (induction ks arbitrary: st)
  case Nil
  then show ?case by simp
next
  case (Cons k ks)
  let ?st' = "browse_iteration lib k (sched k) st"
  show ?case
  proof (cases "fst (close (listener (queries st ! k)))")
    case (Some e)
    then have r: "raised ?st' = Some e" by (simp add: raised_browse_iteration)
    show ?thesis
      by (rule exI [of _ 0]) (simp add: Let_def r teardown_browse_iteration Some)
  next
    case None
    then have r: "raised ?st' = None" using Cons.prems by (simp add: raised_browse_iteration)
    have loop: "browse_loop lib sched (k # ks) st = browse_loop lib sched ks ?st'"
      by (simp add: Let_def r)
    have td: "filter is_teardown (log ?st') = filter is_teardown (log st) @ teardown_of k"
      by (simp add: teardown_browse_iteration None)
    from Cons.IH [OF r] obtain n where n: "n \<le> length ks"
      "filter is_teardown (log (browse_loop lib sched ks ?st')) =
             filter is_teardown (log ?st') @ concat (map teardown_of (take n ks)) @
               (case raised (browse_loop lib sched ks ?st') of
                  None \<Rightarrow> [] | Some e \<Rightarrow> [TaskCancel (ks ! n)])"
      "(case raised (browse_loop lib sched ks ?st') of
               None \<Rightarrow> n = length ks | Some e \<Rightarrow> n < length ks)"
      by blast
    show ?thesis
      unfolding loop
      using n td
      by (intro exI [of _ "Suc n"]) (cases "raised (browse_loop lib sched ks ?st')"; simp)
  qed
qed

subsection \<open>Teardown\<close>

lemma teardown_browse_start:
  "filter is_teardown (log (browse_start lib service_name addrs timeout during_sleep)) = []"
  by (simp add: browse_start_def teardown_run_events)

lemma raised_browse_start [simp]:
  "raised (browse_start lib service_name addrs timeout during_sleep) = None"
  by (simp add: browse_start_def)

lemma length_browse_start [simp]:
  "length (queries (browse_start lib service_name addrs timeout during_sleep)) = length addrs"
  by (simp add: browse_start_def)

lemma teardown_browse_run:
  "\<exists>n\<le>length addrs.
      filter is_teardown (log (browse_run lib service_name addrs timeout during_sleep sched)) =
        concat (map (\<lambda>k. [TaskCancel k, BrowserCancel k, ClientClose k]) [0..<n]) @
        (case raised (browse_run lib service_name addrs timeout during_sleep sched) of
           None \<Rightarrow> [] | Some e \<Rightarrow> [TaskCancel n])
    \<and> (case raised (browse_run lib service_name addrs timeout during_sleep sched) of
           None \<Rightarrow> n = length addrs | Some e \<Rightarrow> n < length addrs \<and> e \<noteq> CancelledError)"
proof -
  let ?st = "browse_start lib service_name addrs timeout during_sleep"
  let ?run = "browse_loop lib sched [0..<length addrs] ?st"
  have run: "browse_run lib service_name addrs timeout during_sleep sched = ?run"
    by (simp add: browse_run_def)
  have nc: "raised ?run \<noteq> Some CancelledError"
    by (rule raised_browse_loop) simp
  have "raised ?st = None" by simp
  from teardown_browse_loop [OF this, of "[0..<length addrs]" lib sched]
  obtain n where n0: "n \<le> length [0..<length addrs]"
    "filter is_teardown (log ?run) =
       filter is_teardown (log ?st) @ concat (map teardown_of (take n [0..<length addrs])) @
       (case raised ?run of None \<Rightarrow> [] | Some e \<Rightarrow> [TaskCancel ([0..<length addrs] ! n)])"
    "(case raised ?run of None \<Rightarrow> n = length [0..<length addrs]
       | Some e \<Rightarrow> n < length [0..<length addrs])"
    by blast
  have n: "n \<le> length addrs"
    "filter is_teardown (log ?run) =
       concat (map teardown_of (take n [0..<length addrs])) @
       (case raised ?run of None \<Rightarrow> [] | Some e \<Rightarrow> [TaskCancel ([0..<length addrs] ! n)])"
    "(case raised ?run of None \<Rightarrow> n = length addrs | Some e \<Rightarrow> n < length addrs)"
    using n0 by (simp_all add: teardown_browse_start split: option.splits)
  have tk: "take n [0..<length addrs] = [0..<n]"
    using n(1) by (simp add: take_upt)
  have tdo: "teardown_of = (\<lambda>k. [TaskCancel k, BrowserCancel k, ClientClose k])"
    by (rule ext) (simp add: teardown_of_def)
  have 1: "filter is_teardown (log ?run) =
        concat (map (\<lambda>k. [TaskCancel k, BrowserCancel k, ClientClose k]) [0..<n]) @
        (case raised ?run of None \<Rightarrow> [] | Some e \<Rightarrow> [TaskCancel n])"
    using n(2,3) by (cases "raised ?run") (simp_all add: tk tdo)
  have 2: "(case raised ?run of
           None \<Rightarrow> n = length addrs | Some e \<Rightarrow> n < length addrs \<and> e \<noteq> CancelledError)"
    using n(3) nc by (cases "raised ?run") simp_all
  show ?thesis
    unfolding run using n(1) 1 2 by blast
qed


lemma close_not_failed:
  assumes "\<not> failed (querying_task l)"
  shows "fst (close l) = None" and "\<not> failed (querying_task (snd (close l)))"
  using assms by (cases "querying_task l"; simp add: close_def)+



lemma browse_start_listener:
  "k < length addrs \<Longrightarrow>
   listener (queries (browse_start lib service_name addrs timeout during_sleep) ! k) =
     snd (listener_run lib (events_of k during_sleep) (BonjourListener_init (addrs ! k)))"
  by (simp add: browse_start_def run_events_listener query_bonjour_def)

text \<open>The equations that evaluate a run on concrete input.\<close>

lemmas eval_defs = browse_run_def browse_start_def query_bonjour_def BonjourListener_init_def
  example_library_def suffix_to_prefix
  run_event_def browse_iteration_def close_def collect_answer_def answer_of_def result_def
  async_on_service_state_change_def resolved_addresses_def Let_def

subsection \<open>Order of the answers\<close>

lemma fold_collect_distinct:
  assumes "\<forall>k\<in>set ks. addresses (L k) \<noteq> []"
    and "distinct (map (\<lambda>k. answer_of (L k)) ks)"
    and "\<forall>k\<in>set ks. answer_of (L k) \<notin> set as"
  shows "fold (\<lambda>k. collect_answer (L k)) ks as = as @ map (\<lambda>k. answer_of (L k)) ks"
  using assms
proof (induction ks arbitrary: as)
  case Nil
  then show ?case by simp
next
  case (Cons k ks)
  have "collect_answer (L k) as = as @ [answer_of (L k)]"
    using Cons.prems by (simp add: collect_answer_cases)
  moreover have "\<forall>j\<in>set ks. answer_of (L j) \<notin> set (as @ [answer_of (L k)])"
    using Cons.prems by (auto simp: image_iff)
  ultimately show ?case using Cons.IH [of "as @ [answer_of (L k)]"] Cons.prems by simp
qed

lemma ip_listener_step: "ip (snd (listener_step lib ev l)) = ip l"
  by (cases ev)
     (auto simp: async_on_service_state_change_def
       split: task.splits list.splits sum.splits option.splits prod.splits)

lemma ip_listener_run: "ip (snd (listener_run lib evs l)) = ip l"
  by (induction evs arbitrary: l) (simp_all add: Let_def case_prod_beta ip_listener_step)

subsection \<open>Entry points and session binding\<close>

lemma length_browse_loop [simp]:
  "length (queries (browse_loop lib sched ks st)) = length (queries st)"
  by (induction ks arbitrary: st) (simp_all add: Let_def)









subsection \<open>No task acts after its cancellation\<close>

lemma quiet_append:
  "quiet_after_cancel C (xs @ ys) \<longleftrightarrow>
     quiet_after_cancel C xs \<and> quiet_after_cancel (C \<union> cancelled_in xs) ys"
proof (induction C xs rule: quiet_after_cancel.induct)
  case (2 C k fx)
  have "insert k C \<union> cancelled_in fx = C \<union> cancelled_in (TaskCancel k # fx)"
    by (auto simp: cancelled_in_def)
  with 2 show ?case by simp
qed (simp_all add: cancelled_in_def)

lemma quiet_task_effects:
  "quiet_after_cancel C (map (TaskEffect k) fx) \<longleftrightarrow> fx = [] \<or> k \<notin> C"
  by (induction fx) auto

lemma cancelled_in_simps [simp]:
  "cancelled_in [] = {}"
  "cancelled_in (xs @ ys) = cancelled_in xs \<union> cancelled_in ys"
  "cancelled_in (map (TaskEffect k) fx) = {}"
  "cancelled_in [TaskCancel k] = {k}"
  "cancelled_in [BrowserCancel k, ClientClose k] = {}"
  by (auto simp: cancelled_in_def)

lemma cancel_inv_run_event:
  assumes "cancel_inv st"
  shows "cancel_inv (run_event lib ev st)"
proof (cases ev)
  case (Ev k e)
  show ?thesis
  proof (cases "k < length (queries st)")
    case False
    then show ?thesis using assms Ev by (simp add: run_event_def)
  next
    case True
    let ?l = "listener (queries st ! k)"
    have lg: "log (run_event lib ev st) = log st @ map (TaskEffect k) (fst (listener_step lib e ?l))"
      using True Ev by (simp add: run_event_def Let_def case_prod_beta)
    have q: "fst (listener_step lib e ?l) = [] \<or> k \<notin> cancelled_in (log st)"
      using assms True terminal_step(1) [of ?l lib e] by (auto simp: cancel_inv_def)
    have t: "terminal (querying_task (listener (queries (run_event lib ev st) ! j)))"
      if "j \<in> cancelled_in (log st)" "j < length (queries st)" for j
      using that assms terminal_step(2) [of "listener (queries st ! j)" lib e]
      by (auto simp: cancel_inv_def Ev listener_run_event)
    show ?thesis
      using assms q t by (simp add: cancel_inv_def lg quiet_append quiet_task_effects)
  qed
qed

lemma cancel_inv_run_events:
  "cancel_inv st \<Longrightarrow> cancel_inv (run_events lib evs st)"
  by (induction evs arbitrary: st) (simp_all add: cancel_inv_run_event)


lemma cancel_inv_after_close:
  assumes "cancel_inv st"
  shows "cancel_inv (after_close lib k evs st)"
proof -
  let ?st1 = "st\<lparr>answers := collect_answer (listener (queries st ! k)) (answers st),
           queries := (queries st)[k := (queries st ! k)\<lparr>listener := snd (close (listener (queries st ! k)))\<rparr>],
           log := log st @ [TaskCancel k]\<rparr>"
  have "terminal (querying_task (listener (queries ?st1 ! j)))"
    if "j \<in> cancelled_in (log ?st1)" "j < length (queries ?st1)" for j
    using that assms close_terminal [of "listener (queries st ! k)"]
    by (cases "j = k") (auto simp: cancel_inv_def)
  then have "cancel_inv ?st1"
    using assms by (simp add: cancel_inv_def quiet_append)
  then show ?thesis
    unfolding after_close_def by (rule cancel_inv_run_events)
qed

lemma cancel_inv_browse_iteration:
  assumes "cancel_inv st"
  shows "cancel_inv (browse_iteration lib k evs st)"
proof (cases "listener (queries st ! k)" rule: close_cases)
  case (1 e)
  have "terminal (querying_task (listener (queries (browse_iteration lib k evs st) ! j)))"
    if "j \<in> cancelled_in (log (browse_iteration lib k evs st))"
       "j < length (queries (browse_iteration lib k evs st))" for j
    using that assms close_terminal [of "listener (queries st ! k)"] 1
    by (cases "j = k") (auto simp: cancel_inv_def browse_iteration_raise)
  then show ?thesis
    using assms 1 by (simp add: cancel_inv_def browse_iteration_raise quiet_append)
next
  case 2
  let ?st3 = "after_close lib k evs st"
  have inv3: "cancel_inv ?st3" using assms by (rule cancel_inv_after_close)
  have "terminal (querying_task (listener (queries (browse_iteration lib k evs st) ! j)))"
    if "j \<in> cancelled_in (log (browse_iteration lib k evs st))"
       "j < length (queries (browse_iteration lib k evs st))" for j
    using that inv3 2
    by (cases "j = k") (auto simp: cancel_inv_def browse_iteration_ok Let_def)
  then show ?thesis
    using inv3 2 by (simp add: cancel_inv_def browse_iteration_ok Let_def quiet_append)
qed

lemma cancel_inv_browse_loop:
  "cancel_inv st \<Longrightarrow> cancel_inv (browse_loop lib sched ks st)"
  by (induction ks arbitrary: st) (simp_all add: Let_def cancel_inv_browse_iteration)

lemma quiet_browse_run:
  "quiet_after_cancel {} (log (browse_run lib service_name addrs timeout during_sleep sched))"
proof -
  have "cancel_inv \<lparr>queries = map (query_bonjour service_name) addrs, answers = [],
        log = [Sleep timeout], raised = None\<rparr>"
    by (simp add: cancel_inv_def cancelled_in_def)
  then have "cancel_inv (browse_run lib service_name addrs timeout during_sleep sched)"
    unfolding browse_run_def browse_start_def
    by (intro cancel_inv_browse_loop cancel_inv_run_events)
  then show ?thesis by (simp add: cancel_inv_def)
qed

text \<open>
  C6. In every run the teardown steps occur session by session, and within a session as
  cancel and await the task, then cancel the browser, then close the client; a run that
  ends by an exception stops right after the task step of some session, and that
  exception is never \<open>CancelledError\<close>. \<open>close\<close> never lets \<open>CancelledError\<close> out and
  leaves the task ended; an ended task takes no further step whatever happens later, and
  in the steps of every run no task acts after its cancellation, so none runs once its
  client is closed.
\<close>

theorem teardown_order:
  "(\<exists>n\<le>length addrs.
      filter is_teardown (log (browse_run lib service_name addrs timeout during_sleep sched)) =
        concat (map (\<lambda>k. [TaskCancel k, BrowserCancel k, ClientClose k]) [0..<n]) @
        (case raised (browse_run lib service_name addrs timeout during_sleep sched) of
           None \<Rightarrow> [] | Some e \<Rightarrow> [TaskCancel n])
    \<and> (case raised (browse_run lib service_name addrs timeout during_sleep sched) of
           None \<Rightarrow> n = length addrs | Some e \<Rightarrow> n < length addrs \<and> e \<noteq> CancelledError))
   \<and> quiet_after_cancel {} (log (browse_run lib service_name addrs timeout during_sleep sched))
   \<and> fst (close l) \<noteq> Some CancelledError
   \<and> terminal (querying_task (snd (close l)))
   \<and> fst (listener_run lib later (snd (close l))) = []
   \<and> querying_task (snd (listener_run lib later (snd (close l)))) = querying_task (snd (close l))"
  using teardown_browse_run [of addrs lib service_name timeout during_sleep sched]
    quiet_browse_run [of lib service_name addrs timeout during_sleep sched]
    terminal_run [OF close_terminal, of lib later l]
    close_not_cancelled [of l] close_terminal [of l]
  by simp

subsection \<open>The list returned\<close>

lemma events_of_append: "events_of k (xs @ ys) = events_of k xs @ events_of k ys"
  by (induction k xs rule: events_of.induct) simp_all

lemma snd_listener_run_append:
  "snd (listener_run lib (xs @ ys) l) = snd (listener_run lib ys (snd (listener_run lib xs l)))"
  by (simp add: listener_run_append Let_def case_prod_beta)

lemma session_listener_append:
  "session_listener lib (evs @ later) addrs k =
     snd (listener_run lib (events_of k later) (session_listener lib evs addrs k))"
  by (simp add: session_listener_def events_of_append snd_listener_run_append)

lemma events_before_Suc:
  "events_before during_sleep sched (Suc i) = events_before during_sleep sched i @ sched i"
  by (simp add: events_before_def)

lemma browse_loop_answers:
  assumes "length (queries st) = length addrs" and "raised st = None" and "i \<le> length addrs"
    and "\<forall>j. i \<le> j \<and> j < length addrs \<longrightarrow>
           listener (queries st ! j) =
             session_listener lib (events_before during_sleep sched i) addrs j"
    and "raised (browse_loop lib sched [i..<length addrs] st) = None"
  shows "answers (browse_loop lib sched [i..<length addrs] st) =
           fold (\<lambda>k. collect_answer (pass_listener lib during_sleep sched addrs k))
                [i..<length addrs] (answers st)"
  using assms
proof (induction "length addrs - i" arbitrary: i st)
  case 0
  then show ?case by simp
next
  case (Suc n)
  then have i: "i < length addrs" by simp
  let ?st' = "browse_iteration lib i (sched i) st"
  have upt: "[i..<length addrs] = i # [Suc i..<length addrs]"
    using i by (simp add: upt_conv_Cons)
  have r: "raised ?st' = None"
  proof (rule ccontr)
    assume "raised ?st' \<noteq> None"
    then have "browse_loop lib sched [i..<length addrs] st = ?st'"
      by (simp add: upt Let_def)
    with Suc.prems(5) \<open>raised ?st' \<noteq> None\<close> show False by simp
  qed
  have c: "fst (close (listener (queries st ! i))) = None"
    using r by (simp add: raised_browse_iteration split: option.splits)
  have loop: "browse_loop lib sched [i..<length addrs] st =
              browse_loop lib sched [Suc i..<length addrs] ?st'"
    by (simp add: upt Let_def r)
  have li: "listener (queries st ! i) = pass_listener lib during_sleep sched addrs i"
    using Suc.prems(4) i by (simp add: pass_listener_def)
  have next_l: "\<forall>j. Suc i \<le> j \<and> j < length addrs \<longrightarrow>
           listener (queries ?st' ! j) =
             session_listener lib (events_before during_sleep sched (Suc i)) addrs j"
  proof (intro allI impI)
    fix j assume j: "Suc i \<le> j \<and> j < length addrs"
    then have "j \<noteq> i" "j < length (queries st)" using Suc.prems(1) by simp_all
    then have "listener (queries ?st' ! j) =
        snd (listener_run lib (events_of j (sched i)) (listener (queries st ! j)))"
      using c by (simp add: browse_iteration_other)
    also have "listener (queries st ! j) =
        session_listener lib (events_before during_sleep sched i) addrs j"
      using Suc.prems(4) j by simp
    finally show "listener (queries ?st' ! j) =
             session_listener lib (events_before during_sleep sched (Suc i)) addrs j"
      by (simp add: events_before_Suc session_listener_append)
  qed
  have "answers (browse_loop lib sched [Suc i..<length addrs] ?st') =
           fold (\<lambda>k. collect_answer (pass_listener lib during_sleep sched addrs k))
                [Suc i..<length addrs] (answers ?st')"
  proof (rule Suc.hyps(1))
    show "n = length addrs - Suc i" using Suc.hyps(2) by simp
    show "length (queries ?st') = length addrs" using Suc.prems(1) by simp
    show "raised ?st' = None" by (rule r)
    show "Suc i \<le> length addrs" using i by simp
    show "\<forall>j. Suc i \<le> j \<and> j < length addrs \<longrightarrow>
           listener (queries ?st' ! j) =
             session_listener lib (events_before during_sleep sched (Suc i)) addrs j"
      by (rule next_l)
    show "raised (browse_loop lib sched [Suc i..<length addrs] ?st') = None"
      using Suc.prems(5) by (simp add: loop)
  qed
  then show ?case
    by (simp add: loop upt [symmetric] answers_browse_iteration li) (simp add: upt)
qed

lemma browse_result:
  assumes "browse lib service_name addrs timeout during_sleep sched = Inr as"
  shows "as = fold (\<lambda>k. collect_answer (pass_listener lib during_sleep sched addrs k))
                   [0..<length addrs] []"
proof -
  let ?st = "browse_start lib service_name addrs timeout during_sleep"
  let ?run = "browse_loop lib sched [0..<length addrs] ?st"
  have r: "raised ?run = None" and a: "answers ?run = as"
    using assms by (simp_all add: browse_def browse_run_def result_def split: option.splits)
  have "\<forall>j. 0 \<le> j \<and> j < length addrs \<longrightarrow>
           listener (queries ?st ! j) =
             session_listener lib (events_before during_sleep sched 0) addrs j"
    by (simp add: browse_start_listener session_listener_def events_before_def)
  from browse_loop_answers [OF _ _ _ this r]
  have "answers ?run = fold (\<lambda>k. collect_answer (pass_listener lib during_sleep sched addrs k))
                [0..<length addrs] (answers ?st)"
    by simp
  moreover have "answers ?st = []" by (simp add: browse_start_def)
  ultimately show ?thesis using a by simp
qed


lemma remdups_drop_seen: "a \<in> set ys \<Longrightarrow> remdups (xs @ a # ys) = remdups (xs @ ys)"
  by (induction xs) auto

lemma fold_collect_first:
  assumes "distinct acc"
  shows "fold collect_answer ls acc =
           rev (remdups (rev (acc @ map answer_of (filter (\<lambda>l. addresses l \<noteq> []) ls))))"
  using assms
proof (induction ls arbitrary: acc)
  case Nil
  then show ?case by (simp add: distinct_remdups_id)
next
  case (Cons l ls)
  show ?case
  proof (cases "addresses l \<noteq> []")
    case False
    then show ?thesis using Cons by (simp add: collect_answer_cases)
  next
    case True
    show ?thesis
    proof (cases "answer_of l \<in> set acc")
      case False
      then have "distinct (acc @ [answer_of l])" using Cons.prems by simp
      from Cons.IH [OF this] show ?thesis
        using True False by (simp add: collect_answer_cases)
    next
      case seen: True
      have "remdups (rev (map answer_of (filter (\<lambda>l. addresses l \<noteq> []) ls)) @ answer_of l # rev acc)
          = remdups (rev (map answer_of (filter (\<lambda>l. addresses l \<noteq> []) ls)) @ rev acc)"
        by (rule remdups_drop_seen) (simp add: seen)
      then show ?thesis
        using True seen Cons.IH [OF Cons.prems] by (simp add: collect_answer_cases)
    qed
  qed
qed

lemma fold_collect_indices:
  assumes "distinct ks"
  shows "\<exists>P. fold (\<lambda>k. collect_answer (L k)) ks acc =
              acc @ map (\<lambda>k. answer_of (L k)) (filter P ks)"
  using assms
proof (induction ks arbitrary: acc)
  case Nil
  then show ?case by simp
next
  case (Cons k ks)
  then have d: "distinct ks" and k: "k \<notin> set ks" by simp_all
  from Cons.IH [OF d, of "collect_answer (L k) acc"] obtain P where
    P: "fold (\<lambda>k. collect_answer (L k)) ks (collect_answer (L k) acc) =
          collect_answer (L k) acc @ map (\<lambda>k. answer_of (L k)) (filter P ks)"
    by blast
  let ?new = "addresses (L k) \<noteq> [] \<and> answer_of (L k) \<notin> set acc"
  let ?Q = "\<lambda>j. if j = k then ?new else P j"
  have f: "filter ?Q ks = filter P ks"
    using k by (intro filter_cong) auto
  have c: "collect_answer (L k) acc = (if ?new then acc @ [answer_of (L k)] else acc)"
    by (simp add: collect_answer_cases)
  have "fold (\<lambda>k. collect_answer (L k)) (k # ks) acc =
          acc @ map (\<lambda>k. answer_of (L k)) (filter ?Q (k # ks))"
    unfolding fold_Cons comp_def P filter.simps f by (simp add: c)
  then show ?case by (rule exI [of _ ?Q])
qed

text \<open>
  C1. Whatever the event loop did during the sleep and during teardown, the list that
  \<open>browse\<close> returns is the list of the answers its passes constructed from sessions with
  addresses, in that order, with every answer kept at its first occurrence and every
  later equal answer left out: it has no two equal entries and holds exactly the
  constructed answers. The accumulated list has no two equal entries in a run that ends
  by an exception too.
\<close>

theorem browse_keeps_first_occurrences:
  assumes "browse lib service_name addrs timeout during_sleep sched = Inr as"
  shows "as = rev (remdups (rev (candidates lib during_sleep sched addrs)))
       \<and> distinct as
       \<and> set as = set (candidates lib during_sleep sched addrs)
       \<and> distinct (answers (browse_run lib service_name addrs timeout during_sleep sched))"
proof -
  have run: "distinct (answers (browse_run lib service_name addrs timeout during_sleep sched))"
    by (simp add: browse_run_def browse_start_def distinct_browse_loop)
  have "as = fold collect_answer (map (pass_listener lib during_sleep sched addrs) [0..<length addrs]) []"
    using browse_result [OF assms] by (simp add: fold_map comp_def)
  then have "as = rev (remdups (rev (candidates lib during_sleep sched addrs)))"
    using fold_collect_first [of "[]"] by (simp add: candidates_def)
  then show ?thesis using run by simp
qed

text \<open>
  C2. For every interface list and whatever the event loop did, the list that \<open>browse\<close>
  returns is built by going through the sessions in the order of the \<open>ips\<close> argument, each
  pass reading the listener of its own session, which is bound to the address at that
  position and has seen the events of that session only. So the answers are those of
  sessions at increasing positions, whichever resolved first; when every session has
  addresses and the answers differ, the result is the answers in input order.
\<close>

theorem browse_answers_in_interface_order:
  assumes "browse lib service_name addrs timeout during_sleep sched = Inr as"
  shows "as = fold (\<lambda>k. collect_answer (pass_listener lib during_sleep sched addrs k))
                   [0..<length addrs] []
       \<and> (\<exists>ks. sorted_wrt (<) ks \<and> set ks \<subseteq> {..<length addrs}
              \<and> as = map (\<lambda>k. answer_of (pass_listener lib during_sleep sched addrs k)) ks)
       \<and> ((\<forall>k<length addrs. addresses (pass_listener lib during_sleep sched addrs k) \<noteq> [])
            \<and> distinct (map (\<lambda>k. answer_of (pass_listener lib during_sleep sched addrs k))
                             [0..<length addrs])
          \<longrightarrow> as = map (\<lambda>k. answer_of (pass_listener lib during_sleep sched addrs k))
                       [0..<length addrs])
       \<and> (\<forall>k<length addrs. ip (pass_listener lib during_sleep sched addrs k) = addrs ! k)"
proof -
  let ?L = "pass_listener lib during_sleep sched addrs"
  have 1: "as = fold (\<lambda>k. collect_answer (?L k)) [0..<length addrs] []"
    by (rule browse_result [OF assms])
  obtain P where "fold (\<lambda>k. collect_answer (?L k)) [0..<length addrs] [] =
      [] @ map (\<lambda>k. answer_of (?L k)) (filter P [0..<length addrs])"
    using fold_collect_indices [of "[0..<length addrs]" ?L "[]"] by auto
  then have "as = map (\<lambda>k. answer_of (?L k)) (filter P [0..<length addrs])"
    using 1 by simp
  moreover have "sorted_wrt (<) (filter P [0..<length addrs])"
    by (intro sorted_wrt_filter) simp
  moreover have "set (filter P [0..<length addrs]) \<subseteq> {..<length addrs}" by auto
  ultimately have 2: "\<exists>ks. sorted_wrt (<) ks \<and> set ks \<subseteq> {..<length addrs}
              \<and> as = map (\<lambda>k. answer_of (?L k)) ks"
    by blast
  have 3: "as = map (\<lambda>k. answer_of (?L k)) [0..<length addrs]"
    if "\<forall>k<length addrs. addresses (?L k) \<noteq> []"
      and "distinct (map (\<lambda>k. answer_of (?L k)) [0..<length addrs])"
    using fold_collect_distinct [of "[0..<length addrs]" ?L "[]"] that 1 by simp
  have 4: "\<forall>k<length addrs. ip (?L k) = addrs ! k"
    by (simp add: pass_listener_def session_listener_def ip_listener_run BonjourListener_init_def)
  show ?thesis using 1 2 3 4 by blast
qed


theorem browse_keeps_first_occurrences_witness:
  "browse example_library ''_apple-mobdev2._tcp.local.'' [''10.0.0.1'', ''10.0.0.2'', ''10.0.0.3''] 1
     [Ev 0 (Notify (''_apple-mobdev2._tcp.local.'', ''a._apple-mobdev2._tcp.local.'', Added)),
      Ev 1 (Notify (''_apple-mobdev2._tcp.local.'', ''b._apple-mobdev2._tcp.local.'', Added)),
      Ev 2 (Notify (''_apple-mobdev2._tcp.local.'', ''c._apple-mobdev2._tcp.local.'', Added)),
      Ev 0 Wake, Ev 1 Wake, Ev 2 Wake,
      Ev 1 (Completed (Inr \<lparr>v4_addresses = [''10.0.1.2''], v6_addresses = [],
                           info_properties = Map.empty, info_port = Some 62078\<rparr>)),
      Ev 0 (Completed (Inr \<lparr>v4_addresses = [''10.0.1.1''], v6_addresses = [],
                           info_properties = Map.empty, info_port = Some 62078\<rparr>))]
     (\<lambda>k. if k = 0 then [Ev 2 (Completed (Inr \<lparr>v4_addresses = [''10.0.1.1''], v6_addresses = [],
                           info_properties = Map.empty, info_port = Some 62078\<rparr>))] else [])
     = Inr [\<lparr>properties = Map.empty, ips = [''10.0.1.1''], port = Some 62078\<rparr>,
            \<lparr>properties = Map.empty, ips = [''10.0.1.2''], port = Some 62078\<rparr>]
   \<and> candidates example_library
     [Ev 0 (Notify (''_apple-mobdev2._tcp.local.'', ''a._apple-mobdev2._tcp.local.'', Added)),
      Ev 1 (Notify (''_apple-mobdev2._tcp.local.'', ''b._apple-mobdev2._tcp.local.'', Added)),
      Ev 2 (Notify (''_apple-mobdev2._tcp.local.'', ''c._apple-mobdev2._tcp.local.'', Added)),
      Ev 0 Wake, Ev 1 Wake, Ev 2 Wake,
      Ev 1 (Completed (Inr \<lparr>v4_addresses = [''10.0.1.2''], v6_addresses = [],
                           info_properties = Map.empty, info_port = Some 62078\<rparr>)),
      Ev 0 (Completed (Inr \<lparr>v4_addresses = [''10.0.1.1''], v6_addresses = [],
                           info_properties = Map.empty, info_port = Some 62078\<rparr>))]
     (\<lambda>k. if k = 0 then [Ev 2 (Completed (Inr \<lparr>v4_addresses = [''10.0.1.1''], v6_addresses = [],
                           info_properties = Map.empty, info_port = Some 62078\<rparr>))] else [])
     [''10.0.0.1'', ''10.0.0.2'', ''10.0.0.3'']
     = [\<lparr>properties = Map.empty, ips = [''10.0.1.1''], port = Some 62078\<rparr>,
        \<lparr>properties = Map.empty, ips = [''10.0.1.2''], port = Some 62078\<rparr>,
        \<lparr>properties = Map.empty, ips = [''10.0.1.1''], port = Some 62078\<rparr>]
   \<and> [\<lparr>properties = Map.empty, ips = [''10.0.1.1''], port = Some 62078\<rparr>,
        \<lparr>properties = Map.empty, ips = [''10.0.1.2''], port = Some 62078\<rparr>]
     = rev (remdups (rev (candidates example_library
     [Ev 0 (Notify (''_apple-mobdev2._tcp.local.'', ''a._apple-mobdev2._tcp.local.'', Added)),
      Ev 1 (Notify (''_apple-mobdev2._tcp.local.'', ''b._apple-mobdev2._tcp.local.'', Added)),
      Ev 2 (Notify (''_apple-mobdev2._tcp.local.'', ''c._apple-mobdev2._tcp.local.'', Added)),
      Ev 0 Wake, Ev 1 Wake, Ev 2 Wake,
      Ev 1 (Completed (Inr \<lparr>v4_addresses = [''10.0.1.2''], v6_addresses = [],
                           info_properties = Map.empty, info_port = Some 62078\<rparr>)),
      Ev 0 (Completed (Inr \<lparr>v4_addresses = [''10.0.1.1''], v6_addresses = [],
                           info_properties = Map.empty, info_port = Some 62078\<rparr>))]
     (\<lambda>k. if k = 0 then [Ev 2 (Completed (Inr \<lparr>v4_addresses = [''10.0.1.1''], v6_addresses = [],
                           info_properties = Map.empty, info_port = Some 62078\<rparr>))] else [])
     [''10.0.0.1'', ''10.0.0.2'', ''10.0.0.3''])))"
proof -
  have run: "browse example_library ''_apple-mobdev2._tcp.local.'' [''10.0.0.1'', ''10.0.0.2'', ''10.0.0.3''] 1
     [Ev 0 (Notify (''_apple-mobdev2._tcp.local.'', ''a._apple-mobdev2._tcp.local.'', Added)),
      Ev 1 (Notify (''_apple-mobdev2._tcp.local.'', ''b._apple-mobdev2._tcp.local.'', Added)),
      Ev 2 (Notify (''_apple-mobdev2._tcp.local.'', ''c._apple-mobdev2._tcp.local.'', Added)),
      Ev 0 Wake, Ev 1 Wake, Ev 2 Wake,
      Ev 1 (Completed (Inr \<lparr>v4_addresses = [''10.0.1.2''], v6_addresses = [],
                           info_properties = Map.empty, info_port = Some 62078\<rparr>)),
      Ev 0 (Completed (Inr \<lparr>v4_addresses = [''10.0.1.1''], v6_addresses = [],
                           info_properties = Map.empty, info_port = Some 62078\<rparr>))]
     (\<lambda>k. if k = 0 then [Ev 2 (Completed (Inr \<lparr>v4_addresses = [''10.0.1.1''], v6_addresses = [],
                           info_properties = Map.empty, info_port = Some 62078\<rparr>))] else [])
     = Inr [\<lparr>properties = Map.empty, ips = [''10.0.1.1''], port = Some 62078\<rparr>,
            \<lparr>properties = Map.empty, ips = [''10.0.1.2''], port = Some 62078\<rparr>]"
    by (simp add: browse_def eval_defs)
  have cands: "candidates example_library
     [Ev 0 (Notify (''_apple-mobdev2._tcp.local.'', ''a._apple-mobdev2._tcp.local.'', Added)),
      Ev 1 (Notify (''_apple-mobdev2._tcp.local.'', ''b._apple-mobdev2._tcp.local.'', Added)),
      Ev 2 (Notify (''_apple-mobdev2._tcp.local.'', ''c._apple-mobdev2._tcp.local.'', Added)),
      Ev 0 Wake, Ev 1 Wake, Ev 2 Wake,
      Ev 1 (Completed (Inr \<lparr>v4_addresses = [''10.0.1.2''], v6_addresses = [],
                           info_properties = Map.empty, info_port = Some 62078\<rparr>)),
      Ev 0 (Completed (Inr \<lparr>v4_addresses = [''10.0.1.1''], v6_addresses = [],
                           info_properties = Map.empty, info_port = Some 62078\<rparr>))]
     (\<lambda>k. if k = 0 then [Ev 2 (Completed (Inr \<lparr>v4_addresses = [''10.0.1.1''], v6_addresses = [],
                           info_properties = Map.empty, info_port = Some 62078\<rparr>))] else [])
     [''10.0.0.1'', ''10.0.0.2'', ''10.0.0.3'']
     = [\<lparr>properties = Map.empty, ips = [''10.0.1.1''], port = Some 62078\<rparr>,
        \<lparr>properties = Map.empty, ips = [''10.0.1.2''], port = Some 62078\<rparr>,
        \<lparr>properties = Map.empty, ips = [''10.0.1.1''], port = Some 62078\<rparr>]"
    by (simp add: candidates_def pass_listener_def events_before_def session_listener_def
        upt_rec eval_defs)
  show ?thesis
    using browse_keeps_first_occurrences [OF run] run cands by simp
qed

theorem browse_answers_in_interface_order_witness:
  "browse example_library ''_apple-mobdev2._tcp.local.'' [''10.0.0.1'', ''10.0.0.2'', ''10.0.0.3''] 1
     [Ev 0 (Notify (''_apple-mobdev2._tcp.local.'', ''a._apple-mobdev2._tcp.local.'', Added)),
      Ev 1 (Notify (''_apple-mobdev2._tcp.local.'', ''b._apple-mobdev2._tcp.local.'', Added)),
      Ev 0 Wake, Ev 1 Wake, Ev 2 Wake,
      Ev 1 (Completed (Inr \<lparr>v4_addresses = [''10.0.1.2''], v6_addresses = [],
                           info_properties = Map.empty, info_port = Some 62078\<rparr>)),
      Ev 0 (Completed (Inr \<lparr>v4_addresses = [''10.0.1.1''], v6_addresses = [],
                           info_properties = Map.empty, info_port = Some 62078\<rparr>))]
     (\<lambda>k. [])
     = Inr [\<lparr>properties = Map.empty, ips = [''10.0.1.1''], port = Some 62078\<rparr>,
            \<lparr>properties = Map.empty, ips = [''10.0.1.2''], port = Some 62078\<rparr>]
   \<and> [\<lparr>properties = Map.empty, ips = [''10.0.1.1''], port = Some 62078\<rparr>,
        \<lparr>properties = Map.empty, ips = [''10.0.1.2''], port = Some 62078\<rparr>]
     = fold (\<lambda>k. collect_answer (pass_listener example_library
     [Ev 0 (Notify (''_apple-mobdev2._tcp.local.'', ''a._apple-mobdev2._tcp.local.'', Added)),
      Ev 1 (Notify (''_apple-mobdev2._tcp.local.'', ''b._apple-mobdev2._tcp.local.'', Added)),
      Ev 0 Wake, Ev 1 Wake, Ev 2 Wake,
      Ev 1 (Completed (Inr \<lparr>v4_addresses = [''10.0.1.2''], v6_addresses = [],
                           info_properties = Map.empty, info_port = Some 62078\<rparr>)),
      Ev 0 (Completed (Inr \<lparr>v4_addresses = [''10.0.1.1''], v6_addresses = [],
                           info_properties = Map.empty, info_port = Some 62078\<rparr>))]
     (\<lambda>k. []) [''10.0.0.1'', ''10.0.0.2'', ''10.0.0.3''] k))
     [0..<length [''10.0.0.1'', ''10.0.0.2'', ''10.0.0.3'']] []"
proof -
  have run: "browse example_library ''_apple-mobdev2._tcp.local.'' [''10.0.0.1'', ''10.0.0.2'', ''10.0.0.3''] 1
     [Ev 0 (Notify (''_apple-mobdev2._tcp.local.'', ''a._apple-mobdev2._tcp.local.'', Added)),
      Ev 1 (Notify (''_apple-mobdev2._tcp.local.'', ''b._apple-mobdev2._tcp.local.'', Added)),
      Ev 0 Wake, Ev 1 Wake, Ev 2 Wake,
      Ev 1 (Completed (Inr \<lparr>v4_addresses = [''10.0.1.2''], v6_addresses = [],
                           info_properties = Map.empty, info_port = Some 62078\<rparr>)),
      Ev 0 (Completed (Inr \<lparr>v4_addresses = [''10.0.1.1''], v6_addresses = [],
                           info_properties = Map.empty, info_port = Some 62078\<rparr>))]
     (\<lambda>k. [])
     = Inr [\<lparr>properties = Map.empty, ips = [''10.0.1.1''], port = Some 62078\<rparr>,
            \<lparr>properties = Map.empty, ips = [''10.0.1.2''], port = Some 62078\<rparr>]"
    by (simp add: browse_def eval_defs)
  show ?thesis
    using browse_answers_in_interface_order [OF run] run by blast
qed

subsection \<open>One notification per listener\<close>

lemma enqueued_append: "enqueued (xs @ ys) = enqueued xs @ enqueued ys"
  by (induction xs rule: enqueued.induct) simp_all

lemma task_history_step:
  assumes "task_history lib evs fx l"
  shows "task_history lib (evs @ [ev]) (fx @ fst (listener_step lib ev l)) (snd (listener_step lib ev l))"
proof (cases ev)
  case (Notify n)
  then show ?thesis using assms
    by (cases "querying_task l")
       (auto simp: task_history_def enqueued_append async_on_service_state_change_def)
next
  case Wake
  show ?thesis
  proof (cases "querying_task l")
    case AwaitingGet
    show ?thesis
    proof (cases "queue l")
      case Nil
      then have "listener_step lib ev l = ([], l)" using Wake AwaitingGet by simp
      then show ?thesis using assms Wake AwaitingGet
        by (simp add: task_history_def enqueued_append)
    next
      case (Cons n ns)
      obtain t name c where n: "n = (t, name, c)" by (cases n)
      have inv: "fx = []" "enqueued evs = n # ns" "addresses l = []"
        "l_properties l = Map.empty" "l_port l = None"
        using assms AwaitingGet Cons by (simp_all add: task_history_def)
      show ?thesis
      proof (cases "service_info_error lib t name")
        case None
        then have "listener_step lib ev l =
            ([QueueGet n, ResolveRequest n], l\<lparr>queue := ns, querying_task := AwaitingRequest n\<rparr>)"
          using Wake AwaitingGet Cons n by simp
        then show ?thesis using inv None n
          by (simp add: task_history_def enqueued_append Wake accepted_def)
      next
        case (Some e)
        then have "listener_step lib ev l =
            ([QueueGet n], l\<lparr>queue := ns, querying_task := Failed e\<rparr>)"
          using Wake AwaitingGet Cons n by simp
        then show ?thesis using inv Some n
          by (simp add: task_history_def enqueued_append Wake)
      qed
    qed
  next
    case (AwaitingRequest m)
    then have "listener_step lib ev l = ([], l)" using Wake by simp
    then show ?thesis using assms Wake AwaitingRequest
      by (simp add: task_history_def enqueued_append)
  next
    case Finished
    then have "listener_step lib ev l = ([], l)" using Wake by simp
    then show ?thesis using assms Wake Finished
      by (simp add: task_history_def enqueued_append)
  next
    case (Failed e)
    then have "listener_step lib ev l = ([], l)" using Wake by simp
    then show ?thesis using assms Wake Failed
      by (simp add: task_history_def enqueued_append)
  next
    case Cancelled
    then show ?thesis using assms by (simp add: task_history_def)
  qed
next
  case (Completed r)
  show ?thesis
  proof (cases "querying_task l")
    case (AwaitingRequest n)
    show ?thesis
    proof (cases r)
      case (Inl e)
      then show ?thesis using assms Completed AwaitingRequest
        by (auto simp: task_history_def enqueued_append)
    next
      case (Inr info)
      then show ?thesis using assms Completed AwaitingRequest
        by (auto simp: task_history_def enqueued_append resolved_addresses_ok)
    qed
  qed (use assms Completed in \<open>auto simp: task_history_def enqueued_append\<close>)
qed

lemma task_history_run:
  "task_history lib evs (fst (listener_run lib evs (BonjourListener_init a)))
                        (snd (listener_run lib evs (BonjourListener_init a)))"
proof (induction evs rule: rev_induct)
  case Nil
  then show ?case by (simp add: task_history_def BonjourListener_init_def)
next
  case (snoc ev evs)
  then show ?case
    using task_history_step [OF snoc.IH, of ev]
    by (simp add: listener_run_append Let_def case_prod_beta)
qed


text \<open>
  C7, as the code has it. Whatever reaches a listener and in whatever order, its task
  takes at most one notification from the queue, the oldest, and every other
  notification stays in the queue. Resumed at \<open>queue.get()\<close> with a notification queued, the
  task takes it and, if the constructor accepts the name, issues one resolve request;
  when that request returns, it sets \<open>addresses\<close>, \<open>properties\<close> and \<open>port\<close> from the record and
  ends. A task that has ended does nothing more.
\<close>

theorem listener_task_history:
  assumes "listener_run lib evs (BonjourListener_init a) = (fx, l)"
  shows "task_history lib evs fx l
       \<and> (fx = [] \<or> (\<exists>n. enqueued evs = n # queue l
                        \<and> (fx = [QueueGet n] \<or> fx = [QueueGet n, ResolveRequest n])))
       \<and> (querying_task l = AwaitingGet \<and> queue l = (service_type, name, state_change) # ns \<longrightarrow>
            listener_step lib Wake l =
              (case service_info_error lib service_type name of
                 Some e \<Rightarrow>
                   ([QueueGet (service_type, name, state_change)],
                    l\<lparr>queue := ns, querying_task := Failed e\<rparr>)
               | None \<Rightarrow>
                   ([QueueGet (service_type, name, state_change),
                     ResolveRequest (service_type, name, state_change)],
                    l\<lparr>queue := ns,
                      querying_task := AwaitingRequest (service_type, name, state_change)\<rparr>)))
       \<and> (querying_task l = AwaitingRequest n \<longrightarrow>
            listener_step lib (Completed (Inr info)) l =
              ([], l\<lparr>addresses := map (inet_ntop lib AF_INET) (v4_addresses info) @
                       (if CHR ''%'' \<in> set (ip l)
                        then map (\<lambda>address. inet_ntop lib AF_INET6 address @ ''%'' @
                                               str_split CHR ''%'' (ip l) ! 1)
                                 (v6_addresses info)
                        else []),
                     l_properties := info_properties info, l_port := info_port info,
                     querying_task := Finished\<rparr>))
       \<and> (terminal (querying_task l) \<longrightarrow>
            fst (listener_run lib later l) = []
          \<and> querying_task (snd (listener_run lib later l)) = querying_task l
          \<and> answer_of (snd (listener_run lib later l)) = answer_of l)"
proof -
  have h: "task_history lib evs fx l"
    using task_history_run [of lib evs a] assms by simp
  have 2: "fx = [] \<or> (\<exists>n. enqueued evs = n # queue l
                        \<and> (fx = [QueueGet n] \<or> fx = [QueueGet n, ResolveRequest n]))"
    using h by (cases "querying_task l") (auto simp: task_history_def)
  show ?thesis
    using h 2 terminal_run [of l lib later]
    by (simp add: resolved_addresses_ok)
qed

text \<open>
  C7 as stated fails: a listener that is never notified takes and resolves no
  notification, and a task that took a notification whose name the constructor rejects
  ends by \<open>BadTypeInNameException\<close> with no resolve request and no field set.
\<close>

theorem listener_may_resolve_nothing:
  "listener_run example_library
     [Wake, Completed (Inr \<lparr>v4_addresses = [''10.0.0.7''], v6_addresses = [],
                       info_properties = Map.empty, info_port = Some 58783\<rparr>)]
     (BonjourListener_init ''10.0.0.2'') = ([], BonjourListener_init ''10.0.0.2'')
   \<and> listener_run example_library
     [Notify (''_remoted._tcp.local.'', ''dev'', Added), Wake,
      Completed (Inr \<lparr>v4_addresses = [''10.0.0.7''], v6_addresses = [],
                       info_properties = Map.empty, info_port = Some 58783\<rparr>)]
     (BonjourListener_init ''10.0.0.2'') =
     ([QueueGet (''_remoted._tcp.local.'', ''dev'', Added)],
      (BonjourListener_init ''10.0.0.2'')\<lparr>querying_task := Failed BadTypeInNameException\<rparr>)"
  by (simp add: BonjourListener_init_def async_on_service_state_change_def example_library_def
      suffix_to_prefix)

theorem listener_task_history_witness:
  "listener_run example_library
     [Notify (''_remoted._tcp.local.'', ''first._remoted._tcp.local.'', Added),
      Notify (''_remoted._tcp.local.'', ''second._remoted._tcp.local.'', Added),
      Wake,
      Completed (Inr \<lparr>v4_addresses = [''10.0.0.7''], v6_addresses = [],
                       info_properties = Map.empty, info_port = Some 58783\<rparr>),
      Wake,
      Notify (''_remoted._tcp.local.'', ''third._remoted._tcp.local.'', Added)]
     (BonjourListener_init ''10.0.0.2'') =
     ([QueueGet (''_remoted._tcp.local.'', ''first._remoted._tcp.local.'', Added),
       ResolveRequest (''_remoted._tcp.local.'', ''first._remoted._tcp.local.'', Added)],
      \<lparr>l_properties = Map.empty, ip = ''10.0.0.2'', l_port = Some 58783,
       addresses = [''10.0.0.7''],
       queue = [(''_remoted._tcp.local.'', ''second._remoted._tcp.local.'', Added),
                (''_remoted._tcp.local.'', ''third._remoted._tcp.local.'', Added)],
       querying_task = Finished\<rparr>)
   \<and> task_history example_library
     [Notify (''_remoted._tcp.local.'', ''first._remoted._tcp.local.'', Added),
      Notify (''_remoted._tcp.local.'', ''second._remoted._tcp.local.'', Added),
      Wake,
      Completed (Inr \<lparr>v4_addresses = [''10.0.0.7''], v6_addresses = [],
                       info_properties = Map.empty, info_port = Some 58783\<rparr>),
      Wake,
      Notify (''_remoted._tcp.local.'', ''third._remoted._tcp.local.'', Added)]
     [QueueGet (''_remoted._tcp.local.'', ''first._remoted._tcp.local.'', Added),
       ResolveRequest (''_remoted._tcp.local.'', ''first._remoted._tcp.local.'', Added)]
     \<lparr>l_properties = Map.empty, ip = ''10.0.0.2'', l_port = Some 58783,
       addresses = [''10.0.0.7''],
       queue = [(''_remoted._tcp.local.'', ''second._remoted._tcp.local.'', Added),
                (''_remoted._tcp.local.'', ''third._remoted._tcp.local.'', Added)],
       querying_task = Finished\<rparr>
   \<and> terminal Finished
   \<and> fst (listener_run example_library [Wake]
        \<lparr>l_properties = Map.empty, ip = ''10.0.0.2'', l_port = Some 58783,
       addresses = [''10.0.0.7''],
       queue = [(''_remoted._tcp.local.'', ''second._remoted._tcp.local.'', Added),
                (''_remoted._tcp.local.'', ''third._remoted._tcp.local.'', Added)],
       querying_task = Finished\<rparr>) = []"
proof -
  have run: "listener_run example_library
     [Notify (''_remoted._tcp.local.'', ''first._remoted._tcp.local.'', Added),
      Notify (''_remoted._tcp.local.'', ''second._remoted._tcp.local.'', Added),
      Wake,
      Completed (Inr \<lparr>v4_addresses = [''10.0.0.7''], v6_addresses = [],
                       info_properties = Map.empty, info_port = Some 58783\<rparr>),
      Wake,
      Notify (''_remoted._tcp.local.'', ''third._remoted._tcp.local.'', Added)]
     (BonjourListener_init ''10.0.0.2'') =
     ([QueueGet (''_remoted._tcp.local.'', ''first._remoted._tcp.local.'', Added),
       ResolveRequest (''_remoted._tcp.local.'', ''first._remoted._tcp.local.'', Added)],
      \<lparr>l_properties = Map.empty, ip = ''10.0.0.2'', l_port = Some 58783,
       addresses = [''10.0.0.7''],
       queue = [(''_remoted._tcp.local.'', ''second._remoted._tcp.local.'', Added),
                (''_remoted._tcp.local.'', ''third._remoted._tcp.local.'', Added)],
       querying_task = Finished\<rparr>)"
    by (simp add: BonjourListener_init_def async_on_service_state_change_def
        resolved_addresses_def example_library_def suffix_to_prefix)
  show ?thesis
    using listener_task_history [OF run, of _ _ _ _ _ _ "[Wake]"] run
    by simp
qed

subsection \<open>Sessions without an answer\<close>

text \<open>
  C8. A listener that got no notification, or whose task has taken none yet, or whose
  task has issued its resolve request and has not got the result, has an empty
  \<open>addresses\<close>; the loop pass of its session adds
  nothing to the answers, its \<open>close\<close> raises nothing, and the pass leaves no exception
  behind.
\<close>

theorem unresolved_session_contributes_nothing:
  assumes "listener_run lib evs (BonjourListener_init a) = (fx, l)"
    and "(\<forall>n. Notify n \<notin> set evs) \<or> fx = []
       \<or> ((\<exists>n. ResolveRequest n \<in> set fx) \<and> (\<forall>r. Completed r \<notin> set evs))"
  shows "addresses l = [] \<and> collect_answer l as = as \<and> fst (close l) = None
       \<and> (listener (queries st ! k) = l \<longrightarrow>
            answers (browse_iteration lib k evs' st) = answers st
          \<and> raised (browse_iteration lib k evs' st) = raised st)"
proof -
  have h: "task_history lib evs fx l"
    using task_history_run [of lib evs a] assms(1) by simp
  have "enqueued evs = []" if "\<forall>n. Notify n \<notin> set evs"
    using that by (induction evs rule: enqueued.induct) auto
  then have "\<not> terminal (querying_task l) \<and> addresses l = []"
    using h assms(2) by (cases "querying_task l") (auto simp: task_history_def)
  then show ?thesis
    by (simp add: collect_answer_def close_pending answers_browse_iteration raised_browse_iteration)
qed


theorem unresolved_session_contributes_nothing_witness:
  "listener_run example_library [Notify (''_remoted._tcp.local.'', ''dev._remoted._tcp.local.'', Added), Wake]
     (BonjourListener_init ''fe80::5%en0'') =
     ([QueueGet (''_remoted._tcp.local.'', ''dev._remoted._tcp.local.'', Added),
       ResolveRequest (''_remoted._tcp.local.'', ''dev._remoted._tcp.local.'', Added)],
      \<lparr>l_properties = Map.empty, ip = ''fe80::5%en0'', l_port = None, addresses = [],
       queue = [], querying_task = AwaitingRequest (''_remoted._tcp.local.'', ''dev._remoted._tcp.local.'', Added)\<rparr>)
   \<and> ResolveRequest (''_remoted._tcp.local.'', ''dev._remoted._tcp.local.'', Added)
       \<in> set [QueueGet (''_remoted._tcp.local.'', ''dev._remoted._tcp.local.'', Added),
              ResolveRequest (''_remoted._tcp.local.'', ''dev._remoted._tcp.local.'', Added)]
   \<and> (\<forall>r. Completed r \<notin> set [Notify (''_remoted._tcp.local.'', ''dev._remoted._tcp.local.'', Added), Wake])
   \<and> fst (close \<lparr>l_properties = Map.empty, ip = ''fe80::5%en0'', l_port = None, addresses = [],
       queue = [], querying_task = AwaitingRequest (''_remoted._tcp.local.'', ''dev._remoted._tcp.local.'', Added)\<rparr>) = None
   \<and> answers (browse_iteration example_library 0 []
      \<lparr>queries = [(query_bonjour ''_remoted._tcp.local.'' ''fe80::5%en0'')
                    \<lparr>listener := \<lparr>l_properties = Map.empty, ip = ''fe80::5%en0'', l_port = None, addresses = [],
       queue = [], querying_task = AwaitingRequest (''_remoted._tcp.local.'', ''dev._remoted._tcp.local.'', Added)\<rparr>\<rparr>],
       answers = [], log = [Sleep 1], raised = None\<rparr>) = []
   \<and> raised (browse_iteration example_library 0 []
      \<lparr>queries = [(query_bonjour ''_remoted._tcp.local.'' ''fe80::5%en0'')
                    \<lparr>listener := \<lparr>l_properties = Map.empty, ip = ''fe80::5%en0'', l_port = None, addresses = [],
       queue = [], querying_task = AwaitingRequest (''_remoted._tcp.local.'', ''dev._remoted._tcp.local.'', Added)\<rparr>\<rparr>],
       answers = [], log = [Sleep 1], raised = None\<rparr>) = None"
proof -
  have run: "listener_run example_library [Notify (''_remoted._tcp.local.'', ''dev._remoted._tcp.local.'', Added), Wake]
     (BonjourListener_init ''fe80::5%en0'') =
     ([QueueGet (''_remoted._tcp.local.'', ''dev._remoted._tcp.local.'', Added),
       ResolveRequest (''_remoted._tcp.local.'', ''dev._remoted._tcp.local.'', Added)],
      \<lparr>l_properties = Map.empty, ip = ''fe80::5%en0'', l_port = None, addresses = [],
       queue = [], querying_task = AwaitingRequest (''_remoted._tcp.local.'', ''dev._remoted._tcp.local.'', Added)\<rparr>)"
    by (simp add: BonjourListener_init_def async_on_service_state_change_def example_library_def
        suffix_to_prefix)
  have hyp: "(\<forall>n. Notify n \<notin> set [Notify (''_remoted._tcp.local.'', ''dev._remoted._tcp.local.'', Added), Wake])
       \<or> [QueueGet (''_remoted._tcp.local.'', ''dev._remoted._tcp.local.'', Added),
           ResolveRequest (''_remoted._tcp.local.'', ''dev._remoted._tcp.local.'', Added)] = []
       \<or> ((\<exists>n. ResolveRequest n
                 \<in> set [QueueGet (''_remoted._tcp.local.'', ''dev._remoted._tcp.local.'', Added),
                        ResolveRequest (''_remoted._tcp.local.'', ''dev._remoted._tcp.local.'', Added)])
          \<and> (\<forall>r. Completed r \<notin> set [Notify (''_remoted._tcp.local.'', ''dev._remoted._tcp.local.'', Added), Wake]))"
    by simp
  show ?thesis
    using unresolved_session_contributes_nothing [OF run hyp, of "[]"
      "\<lparr>queries = [(query_bonjour ''_remoted._tcp.local.'' ''fe80::5%en0'')
                    \<lparr>listener := \<lparr>l_properties = Map.empty, ip = ''fe80::5%en0'', l_port = None, addresses = [],
       queue = [], querying_task = AwaitingRequest (''_remoted._tcp.local.'', ''dev._remoted._tcp.local.'', Added)\<rparr>\<rparr>],
       answers = [], log = [Sleep 1], raised = None\<rparr>" 0 "[]"] run
    by simp
qed

subsection \<open>Teardown without failure\<close>











end
